theory Spec2Isabelle
  imports
    Main
    "HOL-Library.Word"
    "HOL-Library.Char_ord"
    "HOL-Library.List_Lexorder"
    "HOL-Library.Multiset"
    "HOL-Library.AList"
begin

unbundle bit_operations_syntax

section \<open>Common types and the library routines the code calls\<close>

text \<open>
  Go's \<open>[]byte\<close> is a list of 8-bit words, \<open>uint64\<close> a 64-bit word, and a Go
  \<open>string\<close> the list of its bytes (\<open>string\<close>, that is \<open>char list\<close>); the order
  \<open><\<close> on strings is the byte-wise lexicographic one, as in Go.
  A Go map that the code only reads and writes by key is a partial function; a map that the
  code ranges over is an association list whose order stands for the (unspecified) order of
  the iteration, read with \<open>map_of\<close> and written with \<open>AList.update\<close>.

  The routines of this section belong to Go's standard library, not to the repository. They
  are written out from their documentation so that the repository's functions can be
  evaluated: \<open>strings.Split\<close> (for a one-byte separator), \<open>strings.Join\<close>,
  \<open>strings.HasPrefix\<close>, \<open>strings.TrimSpace\<close>, \<open>filepath.Clean\<close> and
  \<open>filepath.ToSlash\<close> (for a platform whose separator is \<open>/\<close>), and the \<open>%d\<close> verb of
  \<open>fmt.Sprintf\<close> for unsigned integers.
\<close>

type_synonym byte = "8 word"
type_synonym bytes = "byte list"
type_synonym uint64 = "64 word"

fun Split :: "char \<Rightarrow> string \<Rightarrow> string list" where
  "Split sep [] = [[]]"
| "Split sep (c # cs) =
     (if c = sep then [] # Split sep cs
      else (case Split sep cs of [] \<Rightarrow> [[c]] | a # as \<Rightarrow> (c # a) # as))"

fun Join :: "string list \<Rightarrow> string \<Rightarrow> string" where
  "Join [] sep = []"
| "Join [a] sep = a"
| "Join (a # b # elems) sep = a @ sep @ Join (b # elems) sep"

definition HasPrefix :: "string \<Rightarrow> string \<Rightarrow> bool" where
  "HasPrefix s p = (take (length p) s = p)"

definition HasSuffix :: "string \<Rightarrow> string \<Rightarrow> bool" where
  "HasSuffix s p = (length p \<le> length s \<and> drop (length s - length p) s = p)"

text \<open>
  \<open>strings.TrimSpace\<close> removes leading and trailing white space as Unicode defines it.
  On the bytes of a string these are the six ASCII characters tab, line feed, vertical tab,
  form feed, carriage return and space, and the UTF-8 encodings of U+0085, U+00A0, U+1680,
  U+2000 to U+200A, U+2028, U+2029, U+202F, U+205F and U+3000.
\<close>

definition white_space :: "string list" where
  "white_space =
     [[CHR 0x09], [CHR 0x0A], [CHR 0x0B], [CHR 0x0C], [CHR 0x0D], [CHR 0x20],
      [CHR 0xC2, CHR 0x85], [CHR 0xC2, CHR 0xA0], [CHR 0xE1, CHR 0x9A, CHR 0x80],
      [CHR 0xE2, CHR 0x80, CHR 0x80], [CHR 0xE2, CHR 0x80, CHR 0x81],
      [CHR 0xE2, CHR 0x80, CHR 0x82], [CHR 0xE2, CHR 0x80, CHR 0x83],
      [CHR 0xE2, CHR 0x80, CHR 0x84], [CHR 0xE2, CHR 0x80, CHR 0x85],
      [CHR 0xE2, CHR 0x80, CHR 0x86], [CHR 0xE2, CHR 0x80, CHR 0x87],
      [CHR 0xE2, CHR 0x80, CHR 0x88], [CHR 0xE2, CHR 0x80, CHR 0x89],
      [CHR 0xE2, CHR 0x80, CHR 0x8A], [CHR 0xE2, CHR 0x80, CHR 0xA8],
      [CHR 0xE2, CHR 0x80, CHR 0xA9], [CHR 0xE2, CHR 0x80, CHR 0xAF],
      [CHR 0xE2, CHR 0x81, CHR 0x9F], [CHR 0xE3, CHR 0x80, CHR 0x80]]"

function TrimLeft :: "string \<Rightarrow> string" where
  "TrimLeft s =
     (case find (HasPrefix s) white_space of
        None \<Rightarrow> s
      | Some w \<Rightarrow> if w = [] then s else TrimLeft (drop (length w) s))"
  by pat_completeness auto
termination
proof (relation "measure length")
  fix s w
  assume "find (HasPrefix s) white_space = Some w" and "w \<noteq> []"
  then have "HasPrefix s w" by (auto simp: find_Some_iff)
  with \<open>w \<noteq> []\<close> have "s \<noteq> []" by (auto simp: HasPrefix_def)
  with \<open>w \<noteq> []\<close> show "(drop (length w) s, s) \<in> measure length" by simp
qed simp

function TrimRight :: "string \<Rightarrow> string" where
  "TrimRight s =
     (case find (HasSuffix s) white_space of
        None \<Rightarrow> s
      | Some w \<Rightarrow> if w = [] then s else TrimRight (take (length s - length w) s))"
  by pat_completeness auto
termination
proof (relation "measure length")
  fix s w
  assume "find (HasSuffix s) white_space = Some w" and "w \<noteq> []"
  then have "HasSuffix s w" by (auto simp: find_Some_iff)
  with \<open>w \<noteq> []\<close> have "s \<noteq> []" by (auto simp: HasSuffix_def)
  with \<open>w \<noteq> []\<close> show "(take (length s - length w) s, s) \<in> measure length" by simp
qed simp

definition TrimSpace :: "string \<Rightarrow> string" where
  "TrimSpace s = TrimRight (TrimLeft s)"

text \<open>
  \<open>filepath.Clean\<close> works on the elements between separators: it drops empty elements
  and \<open>.\<close>, lets \<open>..\<close> remove the element before it, drops a \<open>..\<close> that would climb above
  the root of a rooted path, and keeps the leading \<open>..\<close> elements of a relative path. The
  empty result of a relative path is \<open>.\<close>. \<open>clean_elements\<close> carries the elements kept so
  far as a stack, last one first.
\<close>

fun clean_elements :: "bool \<Rightarrow> string list \<Rightarrow> string list \<Rightarrow> string list" where
  "clean_elements rooted out [] = rev out"
| "clean_elements rooted out (e # es) =
     (if e = [] \<or> e = ''.'' then clean_elements rooted out es
      else if e = ''..'' then
        (case out of
           [] \<Rightarrow> if rooted then clean_elements rooted [] es else clean_elements rooted [''..''] es
         | b # bs \<Rightarrow> if b = ''..'' then clean_elements rooted (''..'' # out) es
                    else clean_elements rooted bs es)
      else clean_elements rooted (e # out) es)"

text \<open>
  The stacks that \<open>clean_elements\<close> builds: no element is empty, is \<open>.\<close> or holds a
  separator, and \<open>..\<close> occurs only in a relative path, below nothing but \<open>..\<close>.
\<close>

fun wf_stack :: "bool \<Rightarrow> string list \<Rightarrow> bool" where
  "wf_stack rooted [] = True"
| "wf_stack rooted (b # bs) =
     (b \<noteq> [] \<and> b \<noteq> ''.'' \<and> CHR ''/'' \<notin> set b \<and>
      (b = ''..'' \<longrightarrow> \<not> rooted \<and> set bs \<subseteq> {''..''}) \<and> wf_stack rooted bs)"

definition Clean :: "string \<Rightarrow> string" where
  "Clean path =
     (if path = [] then ''.''
      else if hd path = CHR ''/''
      then CHR ''/'' # Join (clean_elements True [] (Split CHR ''/'' path)) ''/''
      else if clean_elements False [] (Split CHR ''/'' path) = [] then ''.''
      else Join (clean_elements False [] (Split CHR ''/'' path)) ''/'')"

definition ToSlash :: "string \<Rightarrow> string" where
  "ToSlash path = path"

fun decimal :: "nat \<Rightarrow> string" where
  "decimal n =
     (if n < 10 then [''0123456789'' ! n] else decimal (n div 10) @ [''0123456789'' ! (n mod 10)])"

section \<open>The snapshot header (package header)\<close>

text \<open>
  \<open>time.Time\<close> is read here only through \<open>Equal\<close>, \<open>Before\<close> and \<open>After\<close>, which
  compare instants: a time is its instant, in nanoseconds since the epoch.
\<close>

type_synonym Time = int

definition Time_Equal :: "Time \<Rightarrow> Time \<Rightarrow> bool" where
  "Time_Equal t u = (t = u)"

definition Before :: "Time \<Rightarrow> Time \<Rightarrow> bool" where
  "Before t u = (t < u)"

definition After :: "Time \<Rightarrow> Time \<Rightarrow> bool" where
  "After t u = (u < t)"

record Importer =
  Type :: string
  Origin :: string
  Directory :: string

record Identity =
  Identifier :: bytes
  PublicKey :: bytes

record KeyValue =
  Key :: string
  Value :: string

text \<open>
  \<open>objects.Checksum\<close> is the array type \<open>[32]byte\<close>: the lists of exactly 32 bytes.
\<close>

typedef checksum = "{xs :: bytes. length xs = 32}"
  by (rule exI [of _ "replicate 32 0"]) simp

setup_lifting type_definition_checksum

lift_definition zero_checksum :: checksum is "replicate 32 0"
  by simp

text \<open>
  The struct \<open>Header\<close>. The type \<open>vfs.Summary\<close> of the last field is declared outside
  the sources at hand; the header is parametric in it.
\<close>

record 'summary Header =
  SnapshotID :: checksum
  Version :: string
  CreationTime :: Time
  CreationDuration :: "64 word"
  Identity :: Identity
  Category :: string
  Tags :: "string list"
  Context :: "KeyValue list"
  Importer :: Importer
  Root :: checksum
  Index :: checksum
  Metadata :: checksum
  Statistics :: checksum
  Errors :: checksum
  Summary :: 'summary

subsection \<open>ParseSortKeys\<close>

text \<open>
  \<open>reflect.TypeOf(Header{}).FieldByName\<close> finds a name exactly when it is one of the
  fields of the struct.
\<close>

definition Header_fields :: "string list" where
  "Header_fields =
     [''SnapshotID'', ''Version'', ''CreationTime'', ''CreationDuration'', ''Identity'',
      ''Category'', ''Tags'', ''Context'', ''Importer'', ''Root'', ''Index'', ''Metadata'',
      ''Statistics'', ''Errors'', ''Summary'']"

definition FieldByName :: "string \<Rightarrow> bool" where
  "FieldByName name = (name \<in> set Header_fields)"

text \<open>
  The two errors are \<open>errors.New("duplicate sort key: " + key)\<close> and
  \<open>errors.New("invalid sort key: " + key)\<close>; each constructor carries the key.
\<close>

datatype sort_error = DuplicateKey string | InvalidSortKey string

definition lookupKey_of :: "string \<Rightarrow> string" where
  "lookupKey_of key = (if HasPrefix key ''-'' then drop 1 key else key)"

fun ParseSortKeys_loop ::
  "string list \<Rightarrow> string list \<Rightarrow> string list \<Rightarrow> sort_error + string list" where
  "ParseSortKeys_loop [] uniqueKeys validKeys = Inr validKeys"
| "ParseSortKeys_loop (k # keys) uniqueKeys validKeys =
     (if lookupKey_of (TrimSpace k) \<in> set uniqueKeys then Inl (DuplicateKey (TrimSpace k))
      else if \<not> FieldByName (lookupKey_of (TrimSpace k)) then Inl (InvalidSortKey (TrimSpace k))
      else ParseSortKeys_loop keys (lookupKey_of (TrimSpace k) # uniqueKeys)
             (validKeys @ [TrimSpace k]))"

definition ParseSortKeys :: "string \<Rightarrow> sort_error + string list" where
  "ParseSortKeys sortKeysStr =
     (if sortKeysStr = [] then Inr []
      else ParseSortKeys_loop (Split CHR '','' sortKeysStr) [] [])"

text \<open>
  The base name of a comma-separated piece, and the pieces the loop passes without an
  error: their base names are pairwise different and are all field names.
\<close>

definition base_name :: "string \<Rightarrow> string" where
  "base_name k = lookupKey_of (TrimSpace k)"

definition accepted :: "string list \<Rightarrow> bool" where
  "accepted pre = (distinct (map base_name pre) \<and> set (map base_name pre) \<subseteq> set Header_fields)"

subsection \<open>SortHeaders\<close>

text \<open>
  The loops over \<open>SnapshotID\<close> and \<open>Tags\<close> look for the first index at which the two
  sequences differ, up to the length of the shorter one.
\<close>

fun first_diff :: "'a list \<Rightarrow> 'a list \<Rightarrow> ('a \<times> 'a) option" where
  "first_diff (x # xs) (y # ys) = (if x \<noteq> y then Some (x, y) else first_diff xs ys)"
| "first_diff _ _ = None"

text \<open>
  One pass of the \<open>switch\<close> in the comparison function: it returns a result, falls through
  to the next key, or reaches \<open>default\<close>, which sets the error and returns false.
\<close>

datatype verdict = Return bool | NextKey | Default

definition sort_case :: "string \<Rightarrow> 's Header \<Rightarrow> 's Header \<Rightarrow> verdict" where
  "sort_case key hi hj =
     (if key = ''CreationTime'' then
        (if \<not> Time_Equal (CreationTime hi) (CreationTime hj)
         then Return (Before (CreationTime hi) (CreationTime hj)) else NextKey)
      else if key = ''-CreationTime'' then
        (if \<not> Time_Equal (CreationTime hi) (CreationTime hj)
         then Return (After (CreationTime hi) (CreationTime hj)) else NextKey)
      else if key = ''SnapshotID'' then
        (case first_diff (Rep_checksum (SnapshotID hi)) (Rep_checksum (SnapshotID hj)) of
           Some (x, y) \<Rightarrow> Return (x < y) | None \<Rightarrow> NextKey)
      else if key = ''-SnapshotID'' then
        (case first_diff (Rep_checksum (SnapshotID hi)) (Rep_checksum (SnapshotID hj)) of
           Some (x, y) \<Rightarrow> Return (x > y) | None \<Rightarrow> NextKey)
      else if key = ''Version'' then
        (if Version hi \<noteq> Version hj then Return (Version hi < Version hj) else NextKey)
      else if key = ''-Version'' then
        (if Version hi \<noteq> Version hj then Return (Version hi > Version hj) else NextKey)
      else if key = ''Tags'' then
        (case first_diff (Tags hi) (Tags hj) of
           Some (x, y) \<Rightarrow> Return (x < y)
         | None \<Rightarrow> if length (Tags hi) \<noteq> length (Tags hj)
                   then Return (length (Tags hi) < length (Tags hj)) else NextKey)
      else if key = ''-Tags'' then
        (case first_diff (Tags hi) (Tags hj) of
           Some (x, y) \<Rightarrow> Return (x > y)
         | None \<Rightarrow> if length (Tags hi) \<noteq> length (Tags hj)
                   then Return (length (Tags hi) > length (Tags hj)) else NextKey)
      else Default)"

text \<open>
  The shape that every case of the switch but the default one has: the two headers are
  compared by a value in a linear order, and the pass goes on to the next key when the values
  are equal.
\<close>

definition by_rank :: "('h \<Rightarrow> 'r::linorder) \<Rightarrow> bool \<Rightarrow> 'h \<Rightarrow> 'h \<Rightarrow> verdict" where
  "by_rank f ascending a b =
     (if f a = f b then NextKey else Return (if ascending then f a < f b else f b < f a))"

fun less_func :: "string list \<Rightarrow> 's Header \<Rightarrow> 's Header \<Rightarrow> bool \<times> sort_error option" where
  "less_func [] hi hj = (False, None)"
| "less_func (key # keys) hi hj =
     (case sort_case key hi hj of
        Return r \<Rightarrow> (r, None)
      | NextKey \<Rightarrow> less_func keys hi hj
      | Default \<Rightarrow> (False, Some (InvalidSortKey key)))"

text \<open>
  \<open>sort.Slice\<close> belongs to Go's standard library. On a slice of at most 12 elements it runs
  insertion sort, which is written out here: each element in turn is moved left past every
  predecessor it is less than (\<open>sift\<close> holds the sorted prefix last element first). On a
  longer slice it runs a pattern-defeating quicksort, which is a parameter of the functions
  that call it. The comparison function may set the error variable of \<open>SortHeaders\<close>; the
  sort threads that variable through the comparisons it makes.
\<close>

definition set_err :: "'e option \<Rightarrow> 'e option \<Rightarrow> 'e option" where
  "set_err err e = (case e of None \<Rightarrow> err | Some x \<Rightarrow> Some x)"

fun sift ::
  "('a \<Rightarrow> 'a \<Rightarrow> bool \<times> 'e option) \<Rightarrow> 'a \<Rightarrow> 'a list \<Rightarrow> 'e option \<Rightarrow> 'a list \<times> 'e option" where
  "sift lessf x [] err = ([x], err)"
| "sift lessf x (y # left) err =
     (if fst (lessf x y)
      then (y # fst (sift lessf x left (set_err err (snd (lessf x y)))),
            snd (sift lessf x left (set_err err (snd (lessf x y)))))
      else (x # y # left, set_err err (snd (lessf x y))))"

fun insertionSort ::
  "('a \<Rightarrow> 'a \<Rightarrow> bool \<times> 'e option) \<Rightarrow> 'a list \<Rightarrow> 'a list \<Rightarrow> 'e option \<Rightarrow> 'a list \<times> 'e option" where
  "insertionSort lessf sorted_rev [] err = (rev sorted_rev, err)"
| "insertionSort lessf sorted_rev (x # rest) err =
     insertionSort lessf (fst (sift lessf x sorted_rev err)) rest
       (snd (sift lessf x sorted_rev err))"

type_synonym ('a, 'e) sorter =
  "('a \<Rightarrow> 'a \<Rightarrow> bool \<times> 'e option) \<Rightarrow> 'a list \<Rightarrow> 'a list \<times> 'e option"

definition sort_Slice :: "('a, 'e) sorter \<Rightarrow> ('a, 'e) sorter" where
  "sort_Slice pdqsort lessf x =
     (if length x \<le> 12 then insertionSort lessf [] x None else pdqsort lessf x)"

definition SortHeaders ::
  "('s Header, sort_error) sorter \<Rightarrow> 's Header list \<Rightarrow> string list
     \<Rightarrow> 's Header list \<times> sort_error option" where
  "SortHeaders pdqsort headers sortKeys = sort_Slice pdqsort (less_func sortKeys) headers"

text \<open>
  What the theorem about \<open>SortHeaders\<close> asks of the quicksort of the library: it permutes
  the slice; it leaves a slice in which no element is less than an earlier one as it is (it
  finds the slice sorted after one pass of comparisons); and where the comparison function
  is a strict weak order (asymmetric, and not-less is transitive) no element of its result
  is less than an earlier one.
\<close>

definition no_inversion :: "('a \<Rightarrow> 'a \<Rightarrow> bool \<times> 'e option) \<Rightarrow> 'a list \<Rightarrow> bool" where
  "no_inversion lessf x = sorted_wrt (\<lambda>a b. \<not> fst (lessf b a)) x"

definition strict_weak :: "('a \<Rightarrow> 'a \<Rightarrow> bool \<times> 'e option) \<Rightarrow> bool" where
  "strict_weak lessf =
     ((\<forall>a b. fst (lessf a b) \<longrightarrow> \<not> fst (lessf b a)) \<and>
      (\<forall>a b c. \<not> fst (lessf a b) \<and> \<not> fst (lessf b c) \<longrightarrow> \<not> fst (lessf a c)))"

definition swo :: "('a \<Rightarrow> 'a \<Rightarrow> bool) \<Rightarrow> bool" where
  "swo L = ((\<forall>a b. L a b \<longrightarrow> \<not> L b a) \<and> (\<forall>a b c. \<not> L a b \<and> \<not> L b c \<longrightarrow> \<not> L a c))"

definition pdqsort_ok :: "('a, 'e) sorter \<Rightarrow> bool" where
  "pdqsort_ok pdqsort =
     (\<forall>lessf x.
        mset (fst (pdqsort lessf x)) = mset x \<and>
        (no_inversion lessf x \<longrightarrow> fst (pdqsort lessf x) = x) \<and>
        (strict_weak lessf \<longrightarrow> no_inversion lessf (fst (pdqsort lessf x))))"

text \<open>Insertion sort on every length, an instance of the parameter.\<close>

definition insertion_sorter :: "('a, 'e) sorter" where
  "insertion_sorter lessf x = insertionSort lessf [] x None"

text \<open>A header with a given creation time and tags, every other field empty.\<close>

definition example_header :: "Time \<Rightarrow> string list \<Rightarrow> unit Header" where
  "example_header t tags =
     \<lparr>SnapshotID = zero_checksum, Version = ''1.0.0'', CreationTime = t, CreationDuration = 0,
      Identity = \<lparr>Identifier = replicate 16 0, PublicKey = []\<rparr>, Category = ''default'',
      Tags = tags, Context = [], Importer = \<lparr>Type = [], Origin = [], Directory = []\<rparr>,
      Root = zero_checksum, Index = zero_checksum, Metadata = zero_checksum,
      Statistics = zero_checksum, Errors = zero_checksum, Summary = ()\<rparr>"

section \<open>The virtual filesystem (package vfs)\<close>

subsection \<open>File information\<close>

text \<open>
  Modelled from the spec: the type \<open>FileInfo\<close> is declared in a file of package vfs
  that is not among the sources at hand; the spec calls it the \<open>file_info\<close> record of an
  inode, keyed by \<open>"{dev},{ino}"\<close>. The code below reads it through the accessors
  \<open>Mode()\<close>, \<open>Size()\<close>, \<open>Dev()\<close> and \<open>Ino()\<close>, which are the fields here
  (\<open>Size()\<close> is an \<open>int64\<close>; the code converts it with \<open>uint64(...)\<close>, which keeps
  the 64 bits). The zero value, which a Go map returns for a missing key, has every field zero.
\<close>

record FileInfo =
  Lname :: string
  Lsize :: uint64
  Lmode :: "32 word"
  Ldev :: uint64
  Lino :: uint64

definition zero_FileInfo :: FileInfo where
  "zero_FileInfo = \<lparr>Lname = [], Lsize = 0, Lmode = 0, Ldev = 0, Lino = 0\<rparr>"

text \<open>
  \<open>os.FileMode\<close>: \<open>IsDir\<close> tests the bit \<open>ModeDir = 1 << 31\<close>; \<open>IsRegular\<close>
  tests that no bit of \<open>ModeType\<close> (directory, symlink, named pipe, socket, device,
  character device, irregular) is set.
\<close>

definition ModeDir :: "32 word" where
  "ModeDir = push_bit 31 1"

definition ModeType :: "32 word" where
  "ModeType = push_bit 31 1 OR push_bit 27 1 OR push_bit 25 1 OR push_bit 24 1
     OR push_bit 26 1 OR push_bit 21 1 OR push_bit 19 1"

definition IsDir :: "FileInfo \<Rightarrow> bool" where
  "IsDir fi = (Lmode fi AND ModeDir \<noteq> 0)"

definition IsRegular :: "FileInfo \<Rightarrow> bool" where
  "IsRegular fi = (Lmode fi AND ModeType = 0)"

subsection \<open>Nodes and the filesystem record\<close>

text \<open>
  A node owns its children, so the tree of pointers is a tree of values, and the assignment
  through a pointer in \<open>buildTree\<close> is the rebuilding of the path to the node. The record
  holds the fields that the functions below touch.
\<close>

datatype FilesystemNode =
  FilesystemNode (Inode: string) (Children: "(string \<times> FilesystemNode) list")

record Filesystem =
  Root :: FilesystemNode
  Inodes :: "string \<rightharpoonup> FileInfo"
  pathnameID :: uint64
  Pathnames :: "(string \<times> uint64) list"
  pathnamesInverse :: "uint64 \<rightharpoonup> string"
  statInfo :: "string \<rightharpoonup> FileInfo"
  Symlinks :: "string \<rightharpoonup> string"
  nFiles :: uint64
  nDirectories :: uint64
  totalSize :: uint64

definition NewFilesystem :: Filesystem where
  "NewFilesystem =
     \<lparr>Root = FilesystemNode [] [], Inodes = Map.empty, pathnameID = 0, Pathnames = [],
      pathnamesInverse = Map.empty, statInfo = Map.empty, Symlinks = Map.empty,
      nFiles = 0, nDirectories = 0, totalSize = 0\<rparr>"

text \<open>
  \<open>msgpack.Unmarshal\<close> fills the exported fields of a zero \<open>Filesystem\<close>: the root, the
  inodes, the pathnames and the symlinks. Every other field keeps its zero value. This is the
  state on which \<open>NewFilesystemFromBytes\<close> calls \<open>reindex\<close>.
\<close>

definition unmarshalled ::
  "FilesystemNode \<Rightarrow> (string \<rightharpoonup> FileInfo) \<Rightarrow> (string \<times> uint64) list \<Rightarrow> (string \<rightharpoonup> string)
     \<Rightarrow> Filesystem" where
  "unmarshalled root inodes pathnames symlinks =
     \<lparr>Root = root, Inodes = inodes, pathnameID = 0, Pathnames = pathnames,
      pathnamesInverse = Map.empty, statInfo = Map.empty, Symlinks = symlinks,
      nFiles = 0, nDirectories = 0, totalSize = 0\<rparr>"

subsection \<open>Interning of pathnames and inodes\<close>

text \<open>
  \<open>addPathname\<close> returns the variable \<open>pathnameId\<close> of the map lookup in both
  branches; where the key is missing that variable holds the zero value.
\<close>

definition addPathname :: "Filesystem \<Rightarrow> string \<Rightarrow> uint64 \<times> Filesystem" where
  "addPathname fs pathname =
     (case map_of (Pathnames fs) pathname of
        None \<Rightarrow>
          (0, fs\<lparr>Pathnames := AList.update pathname (pathnameID fs) (Pathnames fs),
                 pathnamesInverse := (pathnamesInverse fs)(pathnameID fs \<mapsto> pathname),
                 pathnameID := pathnameID fs + 1\<rparr>)
      | Some pathnameId \<Rightarrow> (pathnameId, fs))"

definition GetPathnameID :: "Filesystem \<Rightarrow> string \<Rightarrow> uint64" where
  "GetPathnameID fs pathname = (case map_of (Pathnames fs) pathname of None \<Rightarrow> 0 | Some i \<Rightarrow> i)"

definition GetPathname :: "Filesystem \<Rightarrow> uint64 \<Rightarrow> string" where
  "GetPathname fs pathnameId = (case pathnamesInverse fs pathnameId of None \<Rightarrow> [] | Some p \<Rightarrow> p)"

definition inode_key :: "FileInfo \<Rightarrow> string" where
  "inode_key fileinfo = decimal (unat (Ldev fileinfo)) @ '','' @ decimal (unat (Lino fileinfo))"

definition addInode :: "Filesystem \<Rightarrow> FileInfo \<Rightarrow> string \<times> Filesystem" where
  "addInode fs fileinfo =
     (case Inodes fs (inode_key fileinfo) of
        None \<Rightarrow>
          (inode_key fileinfo,
           fs\<lparr>Inodes := (Inodes fs)(inode_key fileinfo \<mapsto> fileinfo),
              totalSize := totalSize fs + Lsize fileinfo\<rparr>)
      | Some _ \<Rightarrow> (inode_key fileinfo, fs))"

text \<open>The value a Go map lookup \<open>filesystem.Inodes[key]\<close> yields.\<close>

definition inode_of :: "Filesystem \<Rightarrow> string \<Rightarrow> FileInfo" where
  "inode_of fs key = (case Inodes fs key of None \<Rightarrow> zero_FileInfo | Some fi \<Rightarrow> fi)"

subsection \<open>buildTree\<close>

text \<open>
  The loop of \<open>buildTree\<close> over the atoms, followed by the assignment of the inode key to
  the node it ends on.
\<close>

fun build_path :: "string list \<Rightarrow> string \<Rightarrow> FilesystemNode \<Rightarrow> FilesystemNode" where
  "build_path [] inodeKey p = FilesystemNode inodeKey (Children p)"
| "build_path (atom # atoms) inodeKey p =
     (case map_of (Children p) atom of
        None \<Rightarrow>
          FilesystemNode (Inode p)
            (AList.update atom (build_path atoms inodeKey (FilesystemNode [] [])) (Children p))
      | Some tmp \<Rightarrow>
          FilesystemNode (Inode p) (AList.update atom (build_path atoms inodeKey tmp) (Children p)))"

definition buildTree :: "Filesystem \<Rightarrow> string \<Rightarrow> FileInfo \<Rightarrow> Filesystem" where
  "buildTree fs0 pathname0 fileinfo =
     (let (inodeKey, fs1) = addInode fs0 fileinfo;
          pathname = ToSlash (Clean pathname0);
          fs2 = snd (addPathname fs1 pathname);
          atoms = (if pathname \<noteq> ''/'' then tl (Split CHR ''/'' pathname) else []);
          fs3 = fs2\<lparr>Root := build_path atoms inodeKey (Root fs2),
                    statInfo := (statInfo fs2)(pathname \<mapsto> fileinfo)\<rparr>
      in if IsRegular fileinfo then fs3\<lparr>nFiles := nFiles fs3 + 1\<rparr>
         else if IsDir fileinfo then fs3\<lparr>nDirectories := nDirectories fs3 + 1\<rparr>
         else fs3)"

subsection \<open>Lookup and LookupChildren\<close>

text \<open>
  \<open>os.ErrNotExist\<close> and \<open>os.ErrInvalid\<close>, which the spec calls NotFound and
  NotADirectory.
\<close>

datatype vfs_error = ErrNotExist | ErrInvalid

fun descend :: "FilesystemNode \<Rightarrow> string list \<Rightarrow> vfs_error + FilesystemNode" where
  "descend p [] = Inr p"
| "descend p (atom # atoms) =
     (case map_of (Children p) atom of
        None \<Rightarrow> Inl ErrNotExist
      | Some tmp \<Rightarrow> descend tmp atoms)"

text \<open>The first lines of every lookup function: clean, forward slashes, \<open>.\<close> becomes \<open>/\<close>.\<close>

definition canonical :: "string \<Rightarrow> string" where
  "canonical pathname = (if ToSlash (Clean pathname) = ''.'' then ''/'' else ToSlash (Clean pathname))"

definition Lookup :: "Filesystem \<Rightarrow> string \<Rightarrow> vfs_error + FilesystemNode" where
  "Lookup fs pathname =
     (if canonical pathname = ''/'' then Inr (Root fs)
      else descend (Root fs) (tl (Split CHR ''/'' (canonical pathname))))"

text \<open>
  \<open>LookupInode\<close> canonicalises the path in the same way and reads the map \<open>statInfo\<close>;
  the pair of the record and the flag \<open>exists\<close> that it returns is the result of the map
  lookup.
\<close>

definition LookupInode :: "Filesystem \<Rightarrow> string \<Rightarrow> FileInfo option" where
  "LookupInode fs pathname = statInfo fs (canonical pathname)"

text \<open>
  \<open>sort.Strings\<close> sorts into increasing order; for a linear order the result is the one
  sorted permutation of its input.
\<close>

definition sort_Strings :: "string list \<Rightarrow> string list" where
  "sort_Strings x = sort x"

definition LookupChildren :: "Filesystem \<Rightarrow> string \<Rightarrow> vfs_error + string list" where
  "LookupChildren fs pathname =
     (case Lookup fs (canonical pathname) of
        Inl err \<Rightarrow> Inl ErrNotExist
      | Inr parent \<Rightarrow>
          if \<not> IsDir (inode_of fs (Inode parent)) then Inl ErrInvalid
          else Inr (sort_Strings (map fst (Children parent))))"

text \<open>
  A node is reached from another along a list of atoms when each atom names a child of the
  node reached so far.
\<close>

inductive reaches :: "FilesystemNode \<Rightarrow> string list \<Rightarrow> FilesystemNode \<Rightarrow> bool" where
  here: "reaches n [] n"
| step: "map_of (Children n) atom = Some c \<Longrightarrow> reaches c atoms m \<Longrightarrow> reaches n (atom # atoms) m"

subsection \<open>reindex\<close>

text \<open>
  \<open>_reindex\<close> calls itself on every child that is a directory, with the path of the child,
  which it looks up again from the root. On a tree read from bytes a child may be named so
  that its cleaned path leads back to an ancestor, and the recursion need not end: the
  function takes fuel, and \<open>None\<close> is the run that has not returned when the fuel is spent.
\<close>

fun underscore_reindex :: "nat \<Rightarrow> string \<Rightarrow> Filesystem \<Rightarrow> Filesystem option"
  and reindex_children ::
    "nat \<Rightarrow> string \<Rightarrow> (string \<times> FilesystemNode) list \<Rightarrow> Filesystem \<Rightarrow> Filesystem option" where
  "underscore_reindex 0 pathname fs = None"
| "underscore_reindex (Suc fuel) pathname fs =
     (case Lookup fs pathname of
        Inl err \<Rightarrow> Some fs
      | Inr node \<Rightarrow>
          reindex_children fuel pathname (Children node)
            (fs\<lparr>statInfo := (statInfo fs)(pathname \<mapsto> inode_of fs (Inode node)),
                totalSize := totalSize fs + Lsize (inode_of fs (Inode node))\<rparr>))"
| "reindex_children fuel pathname [] fs = Some fs"
| "reindex_children fuel pathname ((name, node) # rest) fs =
     (if IsDir (inode_of fs (Inode node))
      then (case underscore_reindex fuel (Clean (pathname @ ''/'' @ name)) fs of
              None \<Rightarrow> None
            | Some fs' \<Rightarrow> reindex_children fuel pathname rest fs')
      else reindex_children fuel pathname rest
             (fs\<lparr>statInfo := (statInfo fs)(Clean (pathname @ ''/'' @ name) \<mapsto> inode_of fs (Inode node))\<rparr>))"

definition reindex :: "nat \<Rightarrow> Filesystem \<Rightarrow> Filesystem option" where
  "reindex fuel fs =
     underscore_reindex fuel ''/''
       (fs\<lparr>pathnamesInverse :=
             fold (\<lambda>(pathname, pathnameId) inv. inv(pathnameId \<mapsto> pathname)) (Pathnames fs) Map.empty,
           statInfo := Map.empty\<rparr>)"

text \<open>
  What the claims about the counters and the total size speak of: the number of nodes under
  a node (itself included) whose inode record satisfies a test, and the sum of the sizes of
  their inode records.
\<close>

fun count_nodes :: "(FileInfo \<Rightarrow> bool) \<Rightarrow> (string \<rightharpoonup> FileInfo) \<Rightarrow> FilesystemNode \<Rightarrow> nat" where
  "count_nodes P inodes (FilesystemNode i cs) =
     (case inodes i of None \<Rightarrow> 0 | Some fi \<Rightarrow> if P fi then 1 else 0) +
     sum_list (map (\<lambda>c. count_nodes P inodes (snd c)) cs)"

fun reachable_size :: "(string \<rightharpoonup> FileInfo) \<Rightarrow> FilesystemNode \<Rightarrow> uint64" where
  "reachable_size inodes (FilesystemNode i cs) =
     (case inodes i of None \<Rightarrow> 0 | Some fi \<Rightarrow> Lsize fi) +
     sum_list (map (\<lambda>c. reachable_size inodes (snd c)) cs)"

text \<open>A directory and two regular files, used to run the functions on a small tree.\<close>

definition dir_info :: FileInfo where
  "dir_info = \<lparr>Lname = ''/'', Lsize = 4096, Lmode = 0x800001ED, Ldev = 1, Lino = 1\<rparr>"

definition file_b :: FileInfo where
  "file_b = \<lparr>Lname = ''b'', Lsize = 7, Lmode = 0x1A4, Ldev = 1, Lino = 2\<rparr>"

definition file_a :: FileInfo where
  "file_a = \<lparr>Lname = ''a'', Lsize = 5, Lmode = 0x1A4, Ldev = 1, Lino = 3\<rparr>"

definition example_fs :: Filesystem where
  "example_fs =
     buildTree (buildTree (buildTree NewFilesystem ''/'' dir_info) ''/b'' file_b) ''/a'' file_a"

section \<open>Encryption (package encryption)\<close>

text \<open>
  Errors of this package and of the readers it uses: \<open>io.EOF\<close>, \<open>io.ErrUnexpectedEOF\<close>,
  any other error with its message, and a run-time panic.
\<close>

datatype io_error = EOF | ErrUnexpectedEOF | Failure string | Panic string

definition saltSize :: nat where
  "saltSize = 16"

definition chunkSize :: nat where
  "chunkSize = 1024"

text \<open>
  \<open>rand.Read\<close> fills a buffer of \<open>n\<close> bytes from the system's source of randomness, or
  fails. The source is a pool of bytes handed to the function; a pool that is too short is
  the failure.
\<close>

definition rand_Read :: "bytes \<Rightarrow> nat \<Rightarrow> io_error + bytes \<times> bytes" where
  "rand_Read pool n =
     (if length pool < n then Inl (Failure ''rand'') else Inr (take n pool, drop n pool))"

subsection \<open>Secrets from passphrases\<close>

text \<open>
  \<open>scrypt.Key(password, salt, N, r, p, keyLen)\<close> and the two functions of
  \<open>base64.StdEncoding\<close> belong to libraries outside the repository; the functions that call
  them take them as parameters. \<open>DeriveSecret\<close> slices the decoded secret at
  \<open>saltSize\<close>, which panics when fewer bytes were decoded.
\<close>

type_synonym scrypt = "bytes \<Rightarrow> bytes \<Rightarrow> nat \<Rightarrow> nat \<Rightarrow> nat \<Rightarrow> nat \<Rightarrow> io_error + bytes"

definition BuildSecretFromPassphrase ::
  "scrypt \<Rightarrow> (bytes \<Rightarrow> string) \<Rightarrow> bytes \<Rightarrow> bytes \<Rightarrow> io_error + string" where
  "BuildSecretFromPassphrase scrypt_Key EncodeToString pool passphrase =
     (case rand_Read pool saltSize of
        Inl err \<Rightarrow> Inl (Failure ''failed to generate salt'')
      | Inr (salt, pool') \<Rightarrow>
          (case scrypt_Key passphrase salt (2 ^ 15) 8 1 32 of
             Inl err \<Rightarrow> Inl (Failure ''key derivation failed'')
           | Inr dk \<Rightarrow> Inr (EncodeToString (salt @ dk))))"

definition DeriveSecret ::
  "scrypt \<Rightarrow> (string \<Rightarrow> io_error + bytes) \<Rightarrow> bytes \<Rightarrow> string \<Rightarrow> io_error + bytes" where
  "DeriveSecret scrypt_Key DecodeString passphrase secret =
     (case DecodeString secret of
        Inl err \<Rightarrow> Inl err
      | Inr decodedSecret \<Rightarrow>
          if length decodedSecret < saltSize then Inl (Panic ''slice bounds out of range'')
          else
            (case scrypt_Key passphrase (take saltSize decodedSecret) (2 ^ 15) 8 1 32 of
               Inl err \<Rightarrow> Inl err
             | Inr dk \<Rightarrow>
                 if dk \<noteq> drop saltSize decodedSecret
                 then Inl (Failure ''passphrase does not match'')
                 else Inr dk))"

text \<open>What the theorem about secrets asks of the two libraries.\<close>

definition scrypt_ok :: "scrypt \<Rightarrow> bool" where
  "scrypt_ok K = (\<forall>pw salt. \<exists>dk. K pw salt (2 ^ 15) 8 1 32 = Inr dk \<and> length dk = 32)"

definition base64_ok :: "(bytes \<Rightarrow> string) \<Rightarrow> (string \<Rightarrow> io_error + bytes) \<Rightarrow> bool" where
  "base64_ok enc dec = (\<forall>x. dec (enc x) = Inr x)"

subsection \<open>Readers\<close>

text \<open>
  An \<open>io.Reader\<close> is the list of what its successive calls of \<open>Read\<close> have to offer: each
  entry is a segment of bytes and the error returned with its last byte, if any. The
  interface lets a reader return the last bytes together with \<open>io.EOF\<close> or return
  \<open>io.EOF\<close> alone on the next call; both are entries here. A call with a buffer shorter
  than the segment takes the front of the segment and leaves the rest; past the end, and
  after an error, every call returns no bytes and the error. The read end of an
  \<open>io.Pipe\<close> is the reader whose segments are the writes, in order: a call of \<open>Read\<close>
  never joins two writes.
\<close>

type_synonym reader = "(bytes \<times> io_error option) list"

fun Read :: "nat \<Rightarrow> reader \<Rightarrow> (bytes \<times> io_error option) \<times> reader" where
  "Read n [] = (([], Some EOF), [])"
| "Read n ((seg, err) # rest) =
     (if length seg \<le> n
      then ((seg, err), (case err of None \<Rightarrow> rest | Some e \<Rightarrow> [([], Some e)]))
      else ((take n seg, None), (drop n seg, err) # rest))"

text \<open>
  \<open>io.ReadAll\<close>: all the bytes up to the end or the first error, and that error unless it
  is \<open>io.EOF\<close>. Its first component is the byte stream that the reader carries.
\<close>

fun ReadAll :: "reader \<Rightarrow> bytes \<times> io_error option" where
  "ReadAll [] = ([], None)"
| "ReadAll ((seg, None) # rest) = (seg @ fst (ReadAll rest), snd (ReadAll rest))"
| "ReadAll ((seg, Some err) # rest) = (seg, if err = EOF then None else Some err)"

definition rsize :: "reader \<Rightarrow> nat" where
  "rsize r = sum_list (map (\<lambda>s. Suc (length (fst s))) r)"

lemma Read_smaller:
  "Read n r = ((buf, None), r') \<Longrightarrow> 0 < n \<Longrightarrow> rsize r' < rsize r"
  by (cases r) (auto simp: rsize_def split: if_splits option.splits)

text \<open>\<open>io.ReadFull\<close> reads until the buffer is full or a call of \<open>Read\<close> returns an error.\<close>

function ReadFull_loop :: "nat \<Rightarrow> bytes \<Rightarrow> reader \<Rightarrow> (bytes \<times> io_error option) \<times> reader" where
  "ReadFull_loop want got r =
     (if want \<le> length got then ((got, None), r)
      else
        (case Read (want - length got) r of
           ((buf, None), r') \<Rightarrow> ReadFull_loop want (got @ buf) r'
         | ((buf, Some err), r') \<Rightarrow>
             if want \<le> length (got @ buf) then ((got @ buf, None), r')
             else if 0 < length (got @ buf) \<and> err = EOF then ((got @ buf, Some ErrUnexpectedEOF), r')
             else ((got @ buf, Some err), r')))"
  by pat_completeness auto
termination
  by (relation "measure (\<lambda>(want, got, r). rsize r)") (auto intro: Read_smaller [OF sym])

definition ReadFull :: "nat \<Rightarrow> reader \<Rightarrow> (bytes \<times> io_error option) \<times> reader" where
  "ReadFull n r = ReadFull_loop n [] r"

subsection \<open>EncryptStream and DecryptStream\<close>

text \<open>
  AES-GCM belongs to Go's standard library: \<open>Seal\<close> and \<open>Open\<close> take the key, the nonce
  and the text (there is no additional data), a nonce has 12 bytes and the tag adds 16, and
  \<open>aes.NewCipher\<close> refuses a key that has not 16, 24 or 32 bytes. The two functions are
  parameters of the functions that call them.
\<close>

record AEAD =
  Seal :: "bytes \<Rightarrow> bytes \<Rightarrow> bytes \<Rightarrow> bytes"
  Open :: "bytes \<Rightarrow> bytes \<Rightarrow> bytes \<Rightarrow> io_error + bytes"

definition NonceSize :: nat where
  "NonceSize = 12"

definition Overhead :: nat where
  "Overhead = 16"

definition NewGCM :: "bytes \<Rightarrow> io_error + bytes" where
  "NewGCM key =
     (if length key = 16 \<or> length key = 24 \<or> length key = 32 then Inr key
      else Inl (Failure ''crypto/aes: invalid key size''))"

definition aead_ok :: "AEAD \<Rightarrow> bool" where
  "aead_ok A =
     (\<forall>k n p. Open A k n (Seal A k n p) = Inr p \<and> length (Seal A k n p) = length p + Overhead)"

text \<open>
  The two goroutines. Each writes to a pipe what the list holds, and closes the pipe with
  the error of the last entry, if there is one. The loop of \<open>EncryptStream\<close> tests the
  error of \<open>Read\<close> before it looks at the bytes read.
\<close>

function encrypt_loop :: "(bytes \<Rightarrow> bytes) \<Rightarrow> reader \<Rightarrow> reader" where
  "encrypt_loop seal r =
     (case Read chunkSize r of
        ((buf, Some err), r') \<Rightarrow> (if err \<noteq> EOF then [([], Some err)] else [])
      | ((buf, None), r') \<Rightarrow> (seal buf, None) # encrypt_loop seal r')"
  by pat_completeness auto
termination
  by (relation "measure (\<lambda>(seal, r). rsize r)")
    (auto simp: chunkSize_def intro: Read_smaller [OF sym])

function decrypt_loop :: "(bytes \<Rightarrow> io_error + bytes) \<Rightarrow> reader \<Rightarrow> reader" where
  "decrypt_loop unseal r =
     (case Read (chunkSize + Overhead) r of
        ((buf, Some err), r') \<Rightarrow> (if err \<noteq> EOF then [([], Some err)] else [])
      | ((buf, None), r') \<Rightarrow>
          (case unseal buf of
             Inl err \<Rightarrow> [([], Some err)]
           | Inr decryptedChunk \<Rightarrow> (decryptedChunk, None) # decrypt_loop unseal r'))"
  by pat_completeness auto
termination
  by (relation "measure (\<lambda>(unseal, r). rsize r)")
    (auto simp: chunkSize_def Overhead_def intro: Read_smaller [OF sym])

declare encrypt_loop.simps [simp del] decrypt_loop.simps [simp del] ReadFull_loop.simps [simp del]

definition EncryptStream :: "AEAD \<Rightarrow> bytes \<Rightarrow> bytes \<Rightarrow> reader \<Rightarrow> io_error + reader" where
  "EncryptStream aead pool key r =
     (case rand_Read pool 32 of
        Inl err \<Rightarrow> Inl err
      | Inr (subkey, pool1) \<Rightarrow>
     (case NewGCM key of
        Inl err \<Rightarrow> Inl err
      | Inr gcm \<Rightarrow>
     (case rand_Read pool1 NonceSize of
        Inl err \<Rightarrow> Inl err
      | Inr (subkeyNonce, pool2) \<Rightarrow>
     (case NewGCM subkey of
        Inl err \<Rightarrow> Inl err
      | Inr dataGCM \<Rightarrow>
     (case rand_Read pool2 NonceSize of
        Inl err \<Rightarrow> Inl err
      | Inr (dataNonce, pool3) \<Rightarrow>
          Inr ([(subkeyNonce, None), (Seal aead gcm subkeyNonce subkey, None), (dataNonce, None)] @
               encrypt_loop (Seal aead dataGCM dataNonce) r))))))"

definition DecryptStream :: "AEAD \<Rightarrow> bytes \<Rightarrow> reader \<Rightarrow> io_error + reader" where
  "DecryptStream aead key r =
     (case NewGCM key of
        Inl err \<Rightarrow> Inl err
      | Inr gcm \<Rightarrow>
     (case ReadFull NonceSize r of
        ((subkeyNonce, Some err), r1) \<Rightarrow> Inl err
      | ((subkeyNonce, None), r1) \<Rightarrow>
     (case ReadFull (Overhead + 32) r1 of
        ((encSubkey, Some err), r2) \<Rightarrow> Inl err
      | ((encSubkey, None), r2) \<Rightarrow>
     (case Open aead gcm subkeyNonce encSubkey of
        Inl err \<Rightarrow> Inl err
      | Inr subkey \<Rightarrow>
     (case NewGCM subkey of
        Inl err \<Rightarrow> Inl err
      | Inr dataGCM \<Rightarrow>
     (case ReadFull NonceSize r2 of
        ((dataNonce, Some err), r3) \<Rightarrow> Inl err
      | ((dataNonce, None), r3) \<Rightarrow>
          Inr (decrypt_loop (Open aead dataGCM dataNonce) r3)))))))"

text \<open>A reader that returns its errors, \<open>io.EOF\<close> among them, with no bytes.\<close>

definition eof_alone :: "reader \<Rightarrow> bool" where
  "eof_alone r = list_all (\<lambda>s. snd s = None \<or> fst s = []) r"

text \<open>
  Instances of the library parameters, on which the hypotheses about them can be checked:
  a key derivation that repeats a byte made of the lengths of its arguments, an encoding
  that writes each byte as one character, and a sealing that appends 16 bytes made of the
  nonce and the key.
\<close>

definition toy_scrypt :: scrypt where
  "toy_scrypt pw salt N r p keyLen = Inr (replicate keyLen (of_nat (length pw + length salt)))"

definition toy_encode :: "bytes \<Rightarrow> string" where
  "toy_encode x = map (\<lambda>b. char_of (unat b)) x"

definition toy_decode :: "string \<Rightarrow> io_error + bytes" where
  "toy_decode s = Inr (map (\<lambda>c. of_nat (of_char c)) s)"

definition toy_aead :: AEAD where
  "toy_aead =
     \<lparr>Seal = (\<lambda>k n p. p @ take 16 (n @ k @ replicate 16 0)),
      Open = (\<lambda>k n c.
        if 16 \<le> length c \<and> drop (length c - 16) c = take 16 (n @ k @ replicate 16 0)
        then Inr (take (length c - 16) c)
        else Inl (Failure ''cipher: message authentication failed''))\<rparr>"

section \<open>The snapshot header: results\<close>

subsection \<open>C4: ParseSortKeys\<close>

lemmas parse_eval = TrimSpace_def white_space_def HasPrefix_def HasSuffix_def lookupKey_of_def
  FieldByName_def Header_fields_def ParseSortKeys_def

text \<open>
  C4 (corrected). As stated the claim fails twice. A key is valid when it names any field of
  \<open>Header\<close>, not only one of the four that \<open>SortHeaders\<close> knows: \<open>Category\<close> is
  accepted. And the loop returns at the first piece that offends, with the error of that
  piece: in \<open>bogus,bogus\<close> two keys share a base name, and the result is the
  invalid-key error of the first.
\<close>

theorem ParseSortKeys_counterexample:
  "ParseSortKeys ''Category'' = Inr [''Category''] \<and>
   ParseSortKeys ''bogus,bogus'' = Inl (InvalidSortKey ''bogus'')"
  by (simp add: parse_eval)

lemma loop_skip_accepted:
  "distinct (map base_name pre) \<Longrightarrow> set (map base_name pre) \<inter> set u = {} \<Longrightarrow>
   set (map base_name pre) \<subseteq> set Header_fields \<Longrightarrow>
   ParseSortKeys_loop (pre @ rest) u v =
     ParseSortKeys_loop rest (rev (map base_name pre) @ u) (v @ map TrimSpace pre)"
  by (induction pre arbitrary: u v) (auto simp: FieldByName_def base_name_def)

lemma first_offender:
  "\<not> accepted raw \<Longrightarrow>
   \<exists>pre k post. raw = pre @ k # post \<and> accepted pre \<and>
      (base_name k \<in> set (map base_name pre) \<or> base_name k \<notin> set Header_fields)"
proof (induction raw rule: rev_induct)
  case Nil
  then show ?case by (simp add: accepted_def)
next
  case (snoc x xs)
  show ?case
  proof (cases "accepted xs")
    case True
    with snoc.prems have "base_name x \<in> set (map base_name xs) \<or> base_name x \<notin> set Header_fields"
      by (auto simp: accepted_def)
    with True show ?thesis by blast
  next
    case False
    from snoc.IH [OF False] obtain pre k post where
      "xs = pre @ k # post" "accepted pre"
      "base_name k \<in> set (map base_name pre) \<or> base_name k \<notin> set Header_fields"
      by blast
    then have "xs @ [x] = pre @ k # (post @ [x])" by simp
    with \<open>accepted pre\<close> \<open>base_name k \<in> set (map base_name pre) \<or> base_name k \<notin> set Header_fields\<close>
    show ?thesis by blast
  qed
qed

lemma loop_accepted:
  "accepted raw \<Longrightarrow> ParseSortKeys_loop raw [] [] = Inr (map TrimSpace raw)"
  using loop_skip_accepted [of raw "[]" "[]" "[]"] by (simp add: accepted_def)

lemma loop_duplicate:
  "accepted pre \<Longrightarrow> base_name k \<in> set (map base_name pre) \<Longrightarrow>
   ParseSortKeys_loop (pre @ k # post) [] [] = Inl (DuplicateKey (TrimSpace k))"
  using loop_skip_accepted [of pre "[]" "k # post" "[]"] by (simp add: accepted_def base_name_def)

lemma loop_invalid:
  "accepted pre \<Longrightarrow> base_name k \<notin> set (map base_name pre) \<Longrightarrow>
   base_name k \<notin> set Header_fields \<Longrightarrow>
   ParseSortKeys_loop (pre @ k # post) [] [] = Inl (InvalidSortKey (TrimSpace k))"
  using loop_skip_accepted [of pre "[]" "k # post" "[]"]
  by (simp add: accepted_def base_name_def FieldByName_def)

lemma loop_exhaust:
  "accepted raw \<or>
   (\<exists>pre k post. raw = pre @ k # post \<and> accepted pre \<and> base_name k \<in> set (map base_name pre)) \<or>
   (\<exists>pre k post. raw = pre @ k # post \<and> accepted pre \<and> base_name k \<notin> set (map base_name pre) \<and>
      base_name k \<notin> set Header_fields)"
  using first_offender [of raw] by blast

lemma loop_Inr_iff:
  "ParseSortKeys_loop raw [] [] = Inr r \<longleftrightarrow> accepted raw \<and> r = map TrimSpace raw"
proof (rule iffI)
  assume res: "ParseSortKeys_loop raw [] [] = Inr r"
  from loop_exhaust [of raw] show "accepted raw \<and> r = map TrimSpace raw"
  proof (elim disjE exE conjE)
    assume "accepted raw"
    with res loop_accepted [of raw] show ?thesis by simp
  next
    fix pre k post
    assume "raw = pre @ k # post" "accepted pre" "base_name k \<in> set (map base_name pre)"
    with res loop_duplicate [of pre k post] show ?thesis by simp
  next
    fix pre k post
    assume "raw = pre @ k # post" "accepted pre" "base_name k \<notin> set (map base_name pre)"
      "base_name k \<notin> set Header_fields"
    with res loop_invalid [of pre k post] show ?thesis by simp
  qed
next
  assume "accepted raw \<and> r = map TrimSpace raw"
  then show "ParseSortKeys_loop raw [] [] = Inr r" by (simp add: loop_accepted)
qed

lemma loop_Duplicate_iff:
  "ParseSortKeys_loop raw [] [] = Inl (DuplicateKey d) \<longleftrightarrow>
     (\<exists>pre k post. raw = pre @ k # post \<and> d = TrimSpace k \<and> accepted pre \<and>
        base_name k \<in> set (map base_name pre))"
proof (rule iffI)
  assume res: "ParseSortKeys_loop raw [] [] = Inl (DuplicateKey d)"
  from loop_exhaust [of raw]
  show "\<exists>pre k post. raw = pre @ k # post \<and> d = TrimSpace k \<and> accepted pre \<and>
        base_name k \<in> set (map base_name pre)"
  proof (elim disjE exE conjE)
    assume "accepted raw"
    with res loop_accepted [of raw] show ?thesis by simp
  next
    fix pre k post
    assume *: "raw = pre @ k # post" "accepted pre" "base_name k \<in> set (map base_name pre)"
    with res loop_duplicate [of pre k post] have "d = TrimSpace k" by simp
    with * show ?thesis by blast
  next
    fix pre k post
    assume "raw = pre @ k # post" "accepted pre" "base_name k \<notin> set (map base_name pre)"
      "base_name k \<notin> set Header_fields"
    with res loop_invalid [of pre k post] show ?thesis by simp
  qed
next
  assume "\<exists>pre k post. raw = pre @ k # post \<and> d = TrimSpace k \<and> accepted pre \<and>
        base_name k \<in> set (map base_name pre)"
  then obtain pre k post where "raw = pre @ k # post" "d = TrimSpace k" "accepted pre"
    "base_name k \<in> set (map base_name pre)" by blast
  then show "ParseSortKeys_loop raw [] [] = Inl (DuplicateKey d)"
    using loop_duplicate [of pre k post] by simp
qed

lemma loop_Invalid_iff:
  "ParseSortKeys_loop raw [] [] = Inl (InvalidSortKey d) \<longleftrightarrow>
     (\<exists>pre k post. raw = pre @ k # post \<and> d = TrimSpace k \<and> accepted pre \<and>
        base_name k \<notin> set (map base_name pre) \<and> base_name k \<notin> set Header_fields)"
proof (rule iffI)
  assume res: "ParseSortKeys_loop raw [] [] = Inl (InvalidSortKey d)"
  from loop_exhaust [of raw]
  show "\<exists>pre k post. raw = pre @ k # post \<and> d = TrimSpace k \<and> accepted pre \<and>
        base_name k \<notin> set (map base_name pre) \<and> base_name k \<notin> set Header_fields"
  proof (elim disjE exE conjE)
    assume "accepted raw"
    with res loop_accepted [of raw] show ?thesis by simp
  next
    fix pre k post
    assume "raw = pre @ k # post" "accepted pre" "base_name k \<in> set (map base_name pre)"
    with res loop_duplicate [of pre k post] show ?thesis by simp
  next
    fix pre k post
    assume *: "raw = pre @ k # post" "accepted pre" "base_name k \<notin> set (map base_name pre)"
      "base_name k \<notin> set Header_fields"
    with res loop_invalid [of pre k post] have "d = TrimSpace k" by simp
    with * show ?thesis by blast
  qed
next
  assume "\<exists>pre k post. raw = pre @ k # post \<and> d = TrimSpace k \<and> accepted pre \<and>
        base_name k \<notin> set (map base_name pre) \<and> base_name k \<notin> set Header_fields"
  then obtain pre k post where "raw = pre @ k # post" "d = TrimSpace k" "accepted pre"
    "base_name k \<notin> set (map base_name pre)" "base_name k \<notin> set Header_fields" by blast
  then show "ParseSortKeys_loop raw [] [] = Inl (InvalidSortKey d)"
    using loop_invalid [of pre k post] by simp
qed

text \<open>
  C4, amended. The empty specification yields the empty list. Any other specification is
  split at the commas and each piece is trimmed; the base name of a piece is what is left of
  it after one leading \<open>-\<close>. \<open>ParseSortKeys\<close> returns the trimmed pieces in input order
  exactly when their base names are pairwise different and each is the name of a field of
  \<open>Header\<close> (SnapshotID, Version, CreationTime, CreationDuration, Identity, Category,
  Tags, Context, Importer, Root, Index, Metadata, Statistics, Errors, Summary). Otherwise it
  stops at the first piece whose base name repeats that of an earlier piece or is not a
  field name, and returns the duplicate-key error in the first case and the invalid-key
  error in the second, each for that piece.
\<close>

theorem ParseSortKeys_cases:
  "ParseSortKeys [] = Inr [] \<and>
   (s \<noteq> [] \<longrightarrow>
     (ParseSortKeys s = Inr r \<longleftrightarrow>
        accepted (Split CHR '','' s) \<and> r = map TrimSpace (Split CHR '','' s)) \<and>
     (ParseSortKeys s = Inl (DuplicateKey d) \<longleftrightarrow>
        (\<exists>pre k post. Split CHR '','' s = pre @ k # post \<and> d = TrimSpace k \<and> accepted pre \<and>
           base_name k \<in> set (map base_name pre))) \<and>
     (ParseSortKeys s = Inl (InvalidSortKey d) \<longleftrightarrow>
        (\<exists>pre k post. Split CHR '','' s = pre @ k # post \<and> d = TrimSpace k \<and> accepted pre \<and>
           base_name k \<notin> set (map base_name pre) \<and> base_name k \<notin> set Header_fields)))"
  by (simp add: ParseSortKeys_def loop_Inr_iff loop_Duplicate_iff loop_Invalid_iff)

theorem ParseSortKeys_cases_witness:
  "''-CreationTime, Tags'' \<noteq> [] \<and>
   ParseSortKeys ''-CreationTime, Tags'' = Inr [''-CreationTime'', ''Tags''] \<and>
   accepted (Split CHR '','' ''-CreationTime, Tags'') \<and>
   ParseSortKeys ''Version,-Version'' = Inl (DuplicateKey ''-Version'') \<and>
   (\<exists>pre k post. Split CHR '','' ''Version,-Version'' = pre @ k # post \<and>
      ''-Version'' = TrimSpace k \<and> accepted pre \<and> base_name k \<in> set (map base_name pre)) \<and>
   ParseSortKeys ''Tags,Size'' = Inl (InvalidSortKey ''Size'') \<and>
   (\<exists>pre k post. Split CHR '','' ''Tags,Size'' = pre @ k # post \<and>
      ''Size'' = TrimSpace k \<and> accepted pre \<and> base_name k \<notin> set (map base_name pre) \<and>
      base_name k \<notin> set Header_fields)"
proof -
  have e: "ParseSortKeys ''-CreationTime, Tags'' = Inr [''-CreationTime'', ''Tags'']"
    "ParseSortKeys ''Version,-Version'' = Inl (DuplicateKey ''-Version'')"
    "ParseSortKeys ''Tags,Size'' = Inl (InvalidSortKey ''Size'')"
    by (simp_all add: parse_eval)
  show ?thesis
    using ParseSortKeys_cases [of "''-CreationTime, Tags''" "[''-CreationTime'', ''Tags'']"]
      ParseSortKeys_cases [of "''Version,-Version''" _ "''-Version''"]
      ParseSortKeys_cases [of "''Tags,Size''" _ "''Size''"] e
    by simp
qed

subsection \<open>C5: SortHeaders\<close>

lemma first_diff_Some:
  fixes xs ys :: "'a::linorder list"
  shows "first_diff xs ys = Some (x, y) \<Longrightarrow> xs \<noteq> ys \<and> (xs < ys \<longleftrightarrow> x < y) \<and> (ys < xs \<longleftrightarrow> y < x)"
  by (induction xs ys rule: first_diff.induct) (auto split: if_splits)

lemma first_diff_None:
  fixes xs ys :: "'a::linorder list"
  shows "first_diff xs ys = None \<Longrightarrow>
     (xs = ys \<longleftrightarrow> length xs = length ys) \<and> (xs < ys \<longleftrightarrow> length xs < length ys) \<and>
     (ys < xs \<longleftrightarrow> length ys < length xs)"
proof (induction xs arbitrary: ys)
  case Nil
  then show ?case by (cases ys) auto
next
  case (Cons x xs)
  note IH = Cons.IH and prems = Cons.prems
  show ?case
  proof (cases ys)
    case Nil
    then show ?thesis by auto
  next
    case (Cons y ys')
    with IH [of ys'] prems show ?thesis by (auto split: if_splits)
  qed
qed

lemma first_diff_rank_same_length:
  fixes xs ys :: "'a::linorder list"
  assumes "length xs = length ys"
  shows "(case first_diff xs ys of Some (x, y) \<Rightarrow> Return (x < y) | None \<Rightarrow> NextKey) =
           (if xs = ys then NextKey else Return (xs < ys)) \<and>
         (case first_diff xs ys of Some (x, y) \<Rightarrow> Return (y < x) | None \<Rightarrow> NextKey) =
           (if xs = ys then NextKey else Return (ys < xs))"
proof (cases "first_diff xs ys")
  case None
  with assms first_diff_None [OF None] show ?thesis by simp
next
  case (Some p)
  obtain x y where "p = (x, y)" by (cases p)
  with Some first_diff_Some [of xs ys x y] show ?thesis by simp
qed

lemma first_diff_rank_then_length:
  fixes xs ys :: "'a::linorder list"
  shows "(case first_diff xs ys of
            Some (x, y) \<Rightarrow> Return (x < y)
          | None \<Rightarrow> if length xs \<noteq> length ys then Return (length xs < length ys) else NextKey) =
           (if xs = ys then NextKey else Return (xs < ys)) \<and>
         (case first_diff xs ys of
            Some (x, y) \<Rightarrow> Return (y < x)
          | None \<Rightarrow> if length xs \<noteq> length ys then Return (length ys < length xs) else NextKey) =
           (if xs = ys then NextKey else Return (ys < xs))"
proof (cases "first_diff xs ys")
  case None
  with first_diff_None [OF None] show ?thesis by simp
next
  case (Some p)
  obtain x y where "p = (x, y)" by (cases p)
  with Some first_diff_Some [of xs ys x y] show ?thesis by simp
qed

lemma sort_case_rank:
  "sort_case ''CreationTime'' = by_rank CreationTime True"
  "sort_case ''-CreationTime'' = by_rank CreationTime False"
  "sort_case ''SnapshotID'' = by_rank (\<lambda>h. Rep_checksum (SnapshotID h)) True"
  "sort_case ''-SnapshotID'' = by_rank (\<lambda>h. Rep_checksum (SnapshotID h)) False"
  "sort_case ''Version'' = by_rank Version True"
  "sort_case ''-Version'' = by_rank Version False"
  "sort_case ''Tags'' = by_rank Tags True"
  "sort_case ''-Tags'' = by_rank Tags False"
proof -
  have len: "length (Rep_checksum (SnapshotID a)) = length (Rep_checksum (SnapshotID b))"
    for a b :: "'x Header"
    using Rep_checksum [of "SnapshotID a"] Rep_checksum [of "SnapshotID b"] by simp
  show "sort_case ''CreationTime'' = by_rank CreationTime True"
    "sort_case ''-CreationTime'' = by_rank CreationTime False"
    "sort_case ''Version'' = by_rank Version True"
    "sort_case ''-Version'' = by_rank Version False"
    by (auto simp: fun_eq_iff sort_case_def by_rank_def Time_Equal_def Before_def After_def)
  show "sort_case ''SnapshotID'' = by_rank (\<lambda>h. Rep_checksum (SnapshotID h)) True"
    "sort_case ''-SnapshotID'' = by_rank (\<lambda>h. Rep_checksum (SnapshotID h)) False"
    by (simp_all add: fun_eq_iff sort_case_def by_rank_def first_diff_rank_same_length [OF len])
  show "sort_case ''Tags'' = by_rank Tags True" "sort_case ''-Tags'' = by_rank Tags False"
    by (simp_all add: fun_eq_iff sort_case_def by_rank_def first_diff_rank_then_length)
qed

lemma sort_case_Default:
  "key \<notin> {''CreationTime'', ''-CreationTime'', ''SnapshotID'', ''-SnapshotID'', ''Version'',
     ''-Version'', ''Tags'', ''-Tags''} \<Longrightarrow> sort_case key a b = Default"
  by (simp add: sort_case_def)


lemma strict_weak_swo: "strict_weak lessf = swo (\<lambda>a b. fst (lessf a b))"
  by (simp add: strict_weak_def swo_def)

lemma swo_False: "swo (\<lambda>a b. False)"
  by (simp add: swo_def)

lemma swo_lex:
  fixes f :: "'a \<Rightarrow> 'r::linorder"
  assumes "swo L"
  shows "swo (\<lambda>a b. if f a = f b then L a b else (if asc then f a < f b else f b < f a))"
proof -
  from assms have asym: "\<And>a b. L a b \<Longrightarrow> \<not> L b a"
    and nt: "\<And>a b c. \<not> L a b \<Longrightarrow> \<not> L b c \<Longrightarrow> \<not> L a c"
    unfolding swo_def by blast+
  show ?thesis
    unfolding swo_def
  proof (intro conjI allI impI)
    fix a b
    assume "if f a = f b then L a b else (if asc then f a < f b else f b < f a)"
    then show "\<not> (if f b = f a then L b a else (if asc then f b < f a else f a < f b))"
      using asym [of a b] by (auto split: if_splits)
  next
    fix a b c
    assume h: "\<not> (if f a = f b then L a b else (if asc then f a < f b else f b < f a)) \<and>
       \<not> (if f b = f c then L b c else (if asc then f b < f c else f c < f b))"
    show "\<not> (if f a = f c then L a c else (if asc then f a < f c else f c < f a))"
    proof (cases "f a = f b")
      case ab: True
      show ?thesis
      proof (cases "f b = f c")
        case True
        with ab h nt [of a b c] show ?thesis by simp
      next
        case False
        with ab h show ?thesis by (auto split: if_splits)
      qed
    next
      case ab: False
      show ?thesis
      proof (cases "f b = f c")
        case True
        with ab h show ?thesis by (auto split: if_splits)
      next
        case False
        with ab h show ?thesis by (cases asc) (auto split: if_splits)
      qed
    qed
  qed
qed

lemma less_func_rank_step:
  fixes f :: "'s Header \<Rightarrow> 'r::linorder"
  assumes "sort_case key = by_rank f asc"
    and "strict_weak (less_func keys :: 's Header \<Rightarrow> 's Header \<Rightarrow> bool \<times> sort_error option)"
  shows "strict_weak (less_func (key # keys) :: 's Header \<Rightarrow> 's Header \<Rightarrow> bool \<times> sort_error option)"
proof -
  have eq: "(\<lambda>a b :: 's Header. fst (less_func (key # keys) a b)) =
      (\<lambda>a b. if f a = f b then fst (less_func keys a b) else (if asc then f a < f b else f b < f a))"
    by (simp add: fun_eq_iff assms(1) by_rank_def)
  have "swo (\<lambda>a b :: 's Header. fst (less_func keys a b))"
    using assms(2) by (simp only: strict_weak_swo)
  then have "swo (\<lambda>a b. if f a = f b then fst (less_func keys a b)
      else (if asc then f a < f b else f b < f a))"
    by (rule swo_lex)
  then show ?thesis
    by (simp only: strict_weak_swo eq)
qed

lemma strict_weak_less_func:
  "strict_weak (less_func keys :: 's Header \<Rightarrow> 's Header \<Rightarrow> bool \<times> sort_error option)"
proof (induction keys)
  case Nil
  show ?case by (simp add: strict_weak_swo swo_False)
next
  case (Cons key keys)
  note step = less_func_rank_step [OF _ Cons.IH]
  have k1: "?case" if "key = ''CreationTime''"
    unfolding that by (rule step) (rule sort_case_rank(1))
  have k2: "?case" if "key = ''-CreationTime''"
    unfolding that by (rule step) (rule sort_case_rank(2))
  have k3: "?case" if "key = ''SnapshotID''"
    unfolding that by (rule step) (rule sort_case_rank(3))
  have k4: "?case" if "key = ''-SnapshotID''"
    unfolding that by (rule step) (rule sort_case_rank(4))
  have k5: "?case" if "key = ''Version''"
    unfolding that by (rule step) (rule sort_case_rank(5))
  have k6: "?case" if "key = ''-Version''"
    unfolding that by (rule step) (rule sort_case_rank(6))
  have k7: "?case" if "key = ''Tags''"
    unfolding that by (rule step) (rule sort_case_rank(7))
  have k8: "?case" if "key = ''-Tags''"
    unfolding that by (rule step) (rule sort_case_rank(8))
  have other: "?case"
    if "key \<noteq> ''CreationTime''" "key \<noteq> ''-CreationTime''" "key \<noteq> ''SnapshotID''"
      "key \<noteq> ''-SnapshotID''" "key \<noteq> ''Version''" "key \<noteq> ''-Version''"
      "key \<noteq> ''Tags''" "key \<noteq> ''-Tags''"
  proof -
    have "\<And>a b :: 's Header. sort_case key a b = Default"
      using that by (intro sort_case_Default) simp
    then have "(\<lambda>a b :: 's Header. fst (less_func (key # keys) a b)) = (\<lambda>a b. False)"
      by (simp add: fun_eq_iff)
    then show ?thesis by (simp only: strict_weak_swo swo_False)
  qed
  show ?case
    using k1 k2 k3 k4 k5 k6 k7 k8 other by blast
qed

lemma mset_sift: "mset (fst (sift lessf x left err)) = add_mset x (mset left)"
  by (induction left arbitrary: err) auto

lemma mset_insertionSort:
  "mset (fst (insertionSort lessf pre rest err)) = mset pre + mset rest"
  by (induction rest arbitrary: pre err) (auto simp: mset_sift)

lemma sift_in_order:
  "(\<And>y left'. left = y # left' \<Longrightarrow> \<not> fst (lessf x y)) \<Longrightarrow>
   fst (sift lessf x left err) = x # left"
  by (cases left) auto

lemma insertionSort_in_order:
  "successively (\<lambda>a b. \<not> fst (lessf b a)) (rev pre @ rest) \<Longrightarrow>
   fst (insertionSort lessf pre rest err) = rev pre @ rest"
proof (induction rest arbitrary: pre err)
  case Nil
  then show ?case by simp
next
  case (Cons x rest)
  have "fst (sift lessf x pre err) = x # pre"
  proof (rule sift_in_order)
    fix y left' assume "pre = y # left'"
    with Cons.prems show "\<not> fst (lessf x y)"
      by (simp add: successively_append_iff)
  qed
  with Cons show ?case by simp
qed

lemma hd_sift:
  "hd (fst (sift lessf x left err)) = x \<or>
   (left \<noteq> [] \<and> hd (fst (sift lessf x left err)) = hd left)"
  by (cases left) auto

lemma successively_sift:
  assumes asym: "\<And>a b. fst (lessf a b) \<Longrightarrow> \<not> fst (lessf b a)"
  shows "successively (\<lambda>a b. \<not> fst (lessf a b)) left \<Longrightarrow>
         successively (\<lambda>a b. \<not> fst (lessf a b)) (fst (sift lessf x left err))"
proof (induction left arbitrary: err)
  case Nil
  then show ?case by simp
next
  case (Cons y left)
  show ?case
  proof (cases "fst (lessf x y)")
    case False
    with Cons.prems show ?thesis by simp
  next
    case True
    let ?r = "fst (sift lessf x left (set_err err (snd (lessf x y))))"
    have r: "successively (\<lambda>a b. \<not> fst (lessf a b)) ?r"
      using Cons.IH Cons.prems by (cases left) auto
    have "?r \<noteq> []" by (cases left) auto
    moreover have "\<not> fst (lessf y (hd ?r))"
      using hd_sift [of lessf x left "set_err err (snd (lessf x y))"] asym [OF True] Cons.prems
      by (cases left) auto
    ultimately have "successively (\<lambda>a b. \<not> fst (lessf a b)) (y # ?r)"
      using r by (cases ?r) auto
    with True show ?thesis by simp
  qed
qed

lemma successively_insertionSort:
  assumes asym: "\<And>a b. fst (lessf a b) \<Longrightarrow> \<not> fst (lessf b a)"
  shows "successively (\<lambda>a b. \<not> fst (lessf a b)) pre \<Longrightarrow>
         successively (\<lambda>a b. \<not> fst (lessf b a)) (fst (insertionSort lessf pre rest err))"
proof (induction rest arbitrary: pre err)
  case Nil
  then show ?case by (simp add: successively_rev)
next
  case (Cons x rest)
  have "successively (\<lambda>a b. \<not> fst (lessf a b)) (fst (sift lessf x pre err))"
    using asym Cons.prems by (intro successively_sift) blast+
  then show ?case using Cons.IH by simp
qed

lemma strict_weak_asym:
  assumes "strict_weak lessf" and "fst (lessf a b)"
  shows "\<not> fst (lessf b a)"
proof -
  from assms(1) have "\<forall>a b. fst (lessf a b) \<longrightarrow> \<not> fst (lessf b a)"
    unfolding strict_weak_def by (rule conjunct1)
  with assms(2) show ?thesis by (elim allE [where x = a] allE [where x = b]) simp
qed

lemma insertionSort_no_adjacent_inversion:
  assumes sw: "strict_weak lessf"
  shows "successively (\<lambda>a b. \<not> fst (lessf b a)) (fst (insertionSort lessf [] x None))"
proof (rule successively_insertionSort [where lessf = lessf])
  fix a b
  assume "fst (lessf a b)"
  with sw show "\<not> fst (lessf b a)" by (rule strict_weak_asym)
next
  show "successively (\<lambda>a b. \<not> fst (lessf a b)) []" by simp
qed

lemma insertion_sorter_ok: "pdqsort_ok insertion_sorter"
  unfolding pdqsort_ok_def
proof (intro allI conjI impI)
  fix lessf :: "'a \<Rightarrow> 'a \<Rightarrow> bool \<times> 'b option" and x
  show "mset (fst (insertion_sorter lessf x)) = mset x"
    by (simp add: insertion_sorter_def mset_insertionSort)
  show "fst (insertion_sorter lessf x) = x" if "no_inversion lessf x"
    using that insertionSort_in_order [of lessf "[]" x None]
    by (simp add: insertion_sorter_def no_inversion_def successively_if_sorted_wrt)
  show "no_inversion lessf (fst (insertion_sorter lessf x))" if sw: "strict_weak lessf"
  proof -
    from sw have tr: "\<forall>a b c. \<not> fst (lessf a b) \<and> \<not> fst (lessf b c) \<longrightarrow> \<not> fst (lessf a c)"
      unfolding strict_weak_def by (rule conjunct2)
    have "transp (\<lambda>a b. \<not> fst (lessf b a))"
    proof (rule transpI)
      fix a b c
      assume "\<not> fst (lessf b a)" and "\<not> fst (lessf c b)"
      with tr [rule_format, of c b a] show "\<not> fst (lessf c a)" by simp
    qed
    then show ?thesis
      using insertionSort_no_adjacent_inversion [OF sw, of x]
      by (simp add: no_inversion_def insertion_sorter_def successively_conv_sorted_wrt)
  qed
qed

text \<open>
  C5. For every list of headers and every list of keys (those that \<open>ParseSortKeys\<close>
  accepts among them), the list that \<open>SortHeaders\<close> leaves is a permutation of the list it
  was given, and sorting that list again with the same keys leaves it as it is. Up to 12
  headers this is a fact of the insertion sort of \<open>sort.Slice\<close>; beyond, it holds for every
  quicksort that permutes the slice, leaves a slice without inversion as it is and, for a
  strict weak order, returns a slice without inversion. The comparison function of
  \<open>SortHeaders\<close> is such an order for every list of keys.
\<close>

theorem SortHeaders_permutation_idempotent:
  assumes "pdqsort_ok pdqsort"
  shows "mset (fst (SortHeaders pdqsort xs k)) = mset xs \<and>
     fst (SortHeaders pdqsort (fst (SortHeaders pdqsort xs k)) k) = fst (SortHeaders pdqsort xs k)"
proof (cases "length xs \<le> 12")
  case True
  let ?out = "fst (insertionSort (less_func k) [] xs None)"
  have m: "mset ?out = mset xs" by (simp add: mset_insertionSort)
  then have "length ?out = length xs" by (rule mset_eq_length)
  moreover have "fst (insertionSort (less_func k) [] ?out None) = ?out"
    using insertionSort_in_order [of "less_func k" "[]" ?out None]
      insertionSort_no_adjacent_inversion [OF strict_weak_less_func, of k xs]
    by simp
  ultimately show ?thesis
    using True m by (simp add: SortHeaders_def sort_Slice_def)
next
  case False
  let ?out = "fst (pdqsort (less_func k) xs)"
  from assms have m: "mset ?out = mset xs"
    and sorted: "no_inversion (less_func k) ?out"
    and stay: "no_inversion (less_func k) ?out \<Longrightarrow> fst (pdqsort (less_func k) ?out) = ?out"
    using strict_weak_less_func [of k] unfolding pdqsort_ok_def by blast+
  from m have "length ?out = length xs" by (rule mset_eq_length)
  with False m stay [OF sorted] show ?thesis
    by (simp add: SortHeaders_def sort_Slice_def)
qed

text \<open>
  The scenario of the spec: creation times 1, 2, 3 with tags \<open>[x]\<close>, \<open>[x, y]\<close>, \<open>[z]\<close>,
  sorted by \<open>-CreationTime,Tags\<close>, come out latest first, and no error is set. With the key
  \<open>Category\<close>, which \<open>ParseSortKeys\<close> accepts, the comparison reaches \<open>default\<close>: the
  list is left as it was and the error is set.
\<close>

lemma SortHeaders_scenario:
  "SortHeaders pdqsort
     [example_header 1 [''x''], example_header 2 [''x'', ''y''], example_header 3 [''z'']]
     [''-CreationTime'', ''Tags''] =
   ([example_header 3 [''z''], example_header 2 [''x'', ''y''], example_header 1 [''x'']], None)"
  "SortHeaders pdqsort [example_header 1 [''x''], example_header 2 [''x'', ''y'']] [''Category''] =
   ([example_header 1 [''x''], example_header 2 [''x'', ''y'']], Some (InvalidSortKey ''Category''))"
  by (simp_all add: SortHeaders_def sort_Slice_def sort_case_def set_err_def example_header_def
      Time_Equal_def After_def)

text \<open>
  Insertion sort meets what is asked of the quicksort, and with it the scenario is an
  instance of the theorem.
\<close>

theorem SortHeaders_permutation_idempotent_witness:
  "pdqsort_ok (insertion_sorter :: (unit Header, sort_error) sorter) \<and>
   mset (fst (SortHeaders insertion_sorter
     [example_header 1 [''x''], example_header 2 [''x'', ''y''], example_header 3 [''z'']]
     [''-CreationTime'', ''Tags''])) =
   mset [example_header 1 [''x''], example_header 2 [''x'', ''y''], example_header 3 [''z'']] \<and>
   fst (SortHeaders insertion_sorter
     [example_header 3 [''z''], example_header 2 [''x'', ''y''], example_header 1 [''x'']]
     [''-CreationTime'', ''Tags'']) =
   [example_header 3 [''z''], example_header 2 [''x'', ''y''], example_header 1 [''x'']]"
  using SortHeaders_permutation_idempotent [OF insertion_sorter_ok,
      of "[example_header 1 [''x''], example_header 2 [''x'', ''y''], example_header 3 [''z'']]"
         "[''-CreationTime'', ''Tags'']"]
    insertion_sorter_ok [where ?'a = "unit Header" and ?'b = sort_error]
  by (simp add: SortHeaders_scenario)

section \<open>The virtual filesystem: results\<close>

subsection \<open>Running the functions on the example tree\<close>

lemma example_modes:
  "IsDir dir_info" "\<not> IsRegular dir_info" "IsRegular file_a" "\<not> IsDir file_a"
  "IsRegular file_b" "\<not> IsDir file_b" "\<not> IsDir zero_FileInfo"
  by (simp_all add: IsDir_def IsRegular_def dir_info_def file_a_def file_b_def ModeDir_def
      ModeType_def zero_FileInfo_def)

lemma example_keys:
  "inode_key dir_info = ''1,1''" "inode_key file_b = ''1,2''" "inode_key file_a = ''1,3''"
  by (simp_all add: inode_key_def dir_info_def file_a_def file_b_def)

lemmas vfs_eval = buildTree_def addInode_def addPathname_def NewFilesystem_def example_keys
  example_modes Clean_def ToSlash_def inode_of_def Let_def

lemma example_step1:
  "buildTree NewFilesystem ''/'' dir_info =
     \<lparr>Root = FilesystemNode ''1,1'' [], Inodes = [''1,1'' \<mapsto> dir_info], pathnameID = 1,
      Pathnames = [(''/'', 0)], pathnamesInverse = [0 \<mapsto> ''/''],
      statInfo = [''/'' \<mapsto> dir_info], Symlinks = Map.empty,
      nFiles = 0, nDirectories = 1, totalSize = 4096\<rparr>"
  by (simp add: vfs_eval) (simp add: dir_info_def)

lemma example_step2:
  "buildTree (buildTree NewFilesystem ''/'' dir_info) ''/b'' file_b =
     \<lparr>Root = FilesystemNode ''1,1'' [(''b'', FilesystemNode ''1,2'' [])],
      Inodes = [''1,1'' \<mapsto> dir_info, ''1,2'' \<mapsto> file_b], pathnameID = 2,
      Pathnames = [(''/'', 0), (''/b'', 1)], pathnamesInverse = [0 \<mapsto> ''/'', 1 \<mapsto> ''/b''],
      statInfo = [''/'' \<mapsto> dir_info, ''/b'' \<mapsto> file_b], Symlinks = Map.empty,
      nFiles = 1, nDirectories = 1, totalSize = 4103\<rparr>"
  unfolding example_step1 by (simp add: vfs_eval) (simp add: dir_info_def file_b_def)

lemma example_fs_eq:
  "example_fs =
     \<lparr>Root = FilesystemNode ''1,1''
        [(''b'', FilesystemNode ''1,2'' []), (''a'', FilesystemNode ''1,3'' [])],
      Inodes = [''1,1'' \<mapsto> dir_info, ''1,2'' \<mapsto> file_b, ''1,3'' \<mapsto> file_a], pathnameID = 3,
      Pathnames = [(''/'', 0), (''/b'', 1), (''/a'', 2)],
      pathnamesInverse = [0 \<mapsto> ''/'', 1 \<mapsto> ''/b'', 2 \<mapsto> ''/a''],
      statInfo = [''/'' \<mapsto> dir_info, ''/b'' \<mapsto> file_b, ''/a'' \<mapsto> file_a],
      Symlinks = Map.empty, nFiles = 2, nDirectories = 1, totalSize = 4108\<rparr>"
  unfolding example_fs_def example_step2
  by (simp add: vfs_eval) (simp add: dir_info_def file_b_def file_a_def)

lemma example_rebuild:
  "buildTree example_fs ''/a'' file_a = example_fs\<lparr>nFiles := 3\<rparr>"
  unfolding example_fs_eq by (simp add: vfs_eval fun_upd_idem)

lemma example_lookups:
  "Lookup example_fs ''/'' = Inr (Root example_fs)"
  "Lookup example_fs ''/a'' = Inr (FilesystemNode ''1,3'' [])"
  "Lookup example_fs ''/zz/y'' = Inl ErrNotExist"
  unfolding example_fs_eq by (simp_all add: Lookup_def canonical_def Clean_def ToSlash_def)

subsection \<open>C6: reindex\<close>

text \<open>
  C6 (the code departs from the claim). The claim says that after \<open>reindex\<close> on a VFS read
  from bytes the total size is the sum of the sizes of the inode records of every reachable
  node, directories and other nodes alike. \<open>_reindex\<close> adds a size only where it is called,
  that is for the root and for the children that are directories; for any other child it
  records the inode and adds nothing. On the example tree (a directory of size 4096 holding
  files of sizes 7 and 5), read back from its exported fields, \<open>reindex\<close> returns with an
  entry for each of the three paths and the total size 4096, where the sizes of the
  reachable nodes add up to 4108, which is also the total that the build of the same tree
  had accumulated through \<open>addInode\<close>.
\<close>

theorem reindex_total_size_skips_files:
  "\<exists>fs'. reindex 2 (unmarshalled (Root example_fs) (Inodes example_fs) (Pathnames example_fs)
             (Symlinks example_fs)) = Some fs' \<and>
     statInfo fs' ''/'' = Some dir_info \<and> statInfo fs' ''/b'' = Some file_b \<and>
     statInfo fs' ''/a'' = Some file_a \<and>
     pathnamesInverse fs' = [0 \<mapsto> ''/'', 1 \<mapsto> ''/b'', 2 \<mapsto> ''/a''] \<and>
     totalSize fs' = 4096 \<and>
     reachable_size (Inodes fs') (Root fs') = 4108 \<and>
     totalSize example_fs = 4108"
  unfolding example_fs_eq
  by (simp add: reindex_def unmarshalled_def numeral_2_eq_2 Lookup_def canonical_def vfs_eval)
     (simp add: dir_info_def file_a_def file_b_def)

subsection \<open>C7: the counters of buildTree\<close>

text \<open>
  C7 (the code departs from the claim). The claim says that after any sequence of builds the
  files counter is the number of regular-file nodes reachable from the root and the
  directories counter the number of directory nodes, also when a path is built more than
  once. \<open>buildTree\<close> adds one to a counter on every call, whether or not the path was
  there. On the example tree, built from three different paths, the counters are right
  (2 files, 1 directory); building \<open>/a\<close> once more with the same file information leaves
  the tree and every table as they were and makes the files counter 3, with 2 regular-file
  nodes in the tree.
\<close>

theorem buildTree_counts_rebuilt_path_again:
  "nFiles example_fs = 2 \<and> nDirectories example_fs = 1 \<and>
   count_nodes IsRegular (Inodes example_fs) (Root example_fs) = 2 \<and>
   count_nodes IsDir (Inodes example_fs) (Root example_fs) = 1 \<and>
   buildTree example_fs ''/a'' file_a = example_fs\<lparr>nFiles := 3\<rparr> \<and>
   nFiles (buildTree example_fs ''/a'' file_a) = 3 \<and>
   count_nodes IsRegular (Inodes (buildTree example_fs ''/a'' file_a))
     (Root (buildTree example_fs ''/a'' file_a)) = 2"
  unfolding example_rebuild unfolding example_fs_eq by (simp add: example_modes)

subsection \<open>C8: Lookup\<close>

lemma reaches_Nil [simp]: "reaches n [] m \<longleftrightarrow> m = n"
  by (auto intro: reaches.intros elim: reaches.cases)

lemma reaches_Cons:
  "reaches n (a # as) m \<longleftrightarrow> (\<exists>c. map_of (Children n) a = Some c \<and> reaches c as m)"
  by (auto intro: reaches.intros elim: reaches.cases)

lemma descend_Inr: "descend n atoms = Inr m \<longleftrightarrow> reaches n atoms m"
  by (induction atoms arbitrary: n) (auto simp: reaches_Cons split: option.splits)

lemma descend_not_Invalid: "descend n atoms \<noteq> Inl ErrInvalid"
  by (induction atoms arbitrary: n) (auto split: option.splits)

lemma descend_Inl:
  "descend n atoms = Inl ErrNotExist \<longleftrightarrow>
     (\<exists>pre a post k. atoms = pre @ a # post \<and> reaches n pre k \<and> map_of (Children k) a = None)"
proof (induction atoms arbitrary: n)
  case Nil
  then show ?case by simp
next
  case (Cons b atoms)
  show ?case
  proof (cases "map_of (Children n) b")
    case None
    have "b # atoms = [] @ b # atoms \<and> reaches n [] n \<and> map_of (Children n) b = None"
      using None by simp
    then have "\<exists>pre a post k. b # atoms = pre @ a # post \<and> reaches n pre k \<and>
        map_of (Children k) a = None"
      by blast
    with None show ?thesis by simp
  next
    case (Some c)
    have "(\<exists>pre a post k. b # atoms = pre @ a # post \<and> reaches n pre k \<and>
            map_of (Children k) a = None)
        \<longleftrightarrow> (\<exists>pre a post k. atoms = pre @ a # post \<and> reaches c pre k \<and>
            map_of (Children k) a = None)"
      (is "?L \<longleftrightarrow> ?R")
    proof
      assume ?L
      then obtain pre a post k where *: "b # atoms = pre @ a # post" "reaches n pre k"
        "map_of (Children k) a = None" by blast
      show ?R
      proof (cases pre)
        case Nil
        with * Some show ?thesis by simp
      next
        case (Cons p pre')
        with * Some have "atoms = pre' @ a # post" "reaches c pre' k"
          by (auto simp: reaches_Cons)
        with * show ?thesis by blast
      qed
    next
      assume ?R
      then obtain pre a post k where *: "atoms = pre @ a # post" "reaches c pre k"
        "map_of (Children k) a = None" by blast
      then have "b # atoms = (b # pre) @ a # post" "reaches n (b # pre) k"
        using Some by (auto simp: reaches_Cons)
      with * show ?L by blast
    qed
    with Some Cons.IH [of c] show ?thesis by simp
  qed
qed

lemma Clean_dot: "Clean ''.'' = ''.''"
  by (simp add: Clean_def)

lemma Clean_root: "Clean ''/'' = ''/''"
  by (simp add: Clean_def)

text \<open>Facts about \<open>Split\<close>, \<open>Join\<close> and \<open>Clean\<close>: cleaning a cleaned path changes nothing.\<close>

lemma Split_not_Nil [simp]: "Split c s \<noteq> []"
  by (induction s) (auto split: list.splits)

lemma Split_no_sep: "a \<in> set (Split c s) \<Longrightarrow> c \<notin> set a"
  by (induction s arbitrary: a) (auto split: if_splits list.splits)

lemma Split_no_sep_word: "c \<notin> set a \<Longrightarrow> Split c a = [a]"
  by (induction a) auto

lemma Split_append_sep: "c \<notin> set a \<Longrightarrow> Split c (a @ c # s) = a # Split c s"
  by (induction a) auto

lemma Split_Join:
  "xs \<noteq> [] \<Longrightarrow> (\<forall>a\<in>set xs. c \<notin> set a) \<Longrightarrow> Split c (Join xs [c]) = xs"
proof (induction xs "[c]" rule: Join.induct)
  case 1
  then show ?case by simp
next
  case (2 a)
  then show ?case by (simp add: Split_no_sep_word)
next
  case (3 a b elems)
  then show ?case by (simp add: Split_append_sep)
qed

lemma wf_stack_append: "wf_stack r (xs @ ys) \<Longrightarrow> wf_stack r ys"
  by (induction xs) auto

lemma clean_elements_wf:
  "wf_stack r out \<Longrightarrow> (\<forall>e\<in>set es. CHR ''/'' \<notin> set e) \<Longrightarrow>
   wf_stack r (rev (clean_elements r out es))"
proof (induction es arbitrary: out)
  case Nil
  then show ?case by simp
next
  case (Cons e es)
  show ?case
  proof (cases "e = [] \<or> e = ''.''")
    case True
    with Cons show ?thesis by simp
  next
    case False
    show ?thesis
    proof (cases "e = ''..''")
      case dd: True
      show ?thesis
      proof (cases out)
        case Nil
        with dd Cons show ?thesis by (cases r) simp_all
      next
        case (Cons b bs)
        with dd Cons.prems Cons.IH [of "''..'' # out"] Cons.IH [of bs] show ?thesis
          by (cases "b = ''..''") auto
      qed
    next
      case nd: False
      with False Cons.prems Cons.IH [of "e # out"] show ?thesis by simp
    qed
  qed
qed

lemma clean_elements_fixed:
  "wf_stack r (rev xs @ out) \<Longrightarrow> clean_elements r out xs = rev out @ xs"
proof (induction xs arbitrary: out)
  case Nil
  then show ?case by simp
next
  case (Cons e es)
  from Cons.prems have all: "wf_stack r (rev es @ (e # out))" by simp
  then have top: "wf_stack r (e # out)" by (rule wf_stack_append)
  show ?case
  proof (cases "e = ''..''")
    case True
    with top have "\<not> r" "set out \<subseteq> {''..''}" by auto
    then show ?thesis using True Cons.IH [OF all] by (cases out) auto
  next
    case False
    with top Cons.IH [OF all] show ?thesis by simp
  qed
qed

lemma wf_stack_elems: "wf_stack r xs \<Longrightarrow> a \<in> set xs \<Longrightarrow> a \<noteq> [] \<and> CHR ''/'' \<notin> set a"
  by (induction xs) auto

lemma Join_hd: "xs \<noteq> [] \<Longrightarrow> hd xs \<noteq> [] \<Longrightarrow> Join xs s \<noteq> [] \<and> hd (Join xs s) = hd (hd xs)"
  by (induction xs s rule: Join.induct) auto

lemma cleaned_elements:
  fixes p :: string
  defines "xs \<equiv> clean_elements (hd p = CHR ''/'') [] (Split CHR ''/'' p)"
  shows "clean_elements (hd p = CHR ''/'') [] xs = xs"
    and "xs \<noteq> [] \<Longrightarrow> Split CHR ''/'' (Join xs ''/'') = xs"
    and "xs \<noteq> [] \<Longrightarrow> Join xs ''/'' \<noteq> [] \<and> hd (Join xs ''/'') \<noteq> CHR ''/''"
proof -
  have wf: "wf_stack (hd p = CHR ''/'') (rev xs)"
    unfolding xs_def by (rule clean_elements_wf) (auto dest: Split_no_sep)
  have elems: "\<forall>a\<in>set xs. a \<noteq> [] \<and> CHR ''/'' \<notin> set a"
    using wf_stack_elems [OF wf] by simp
  show "clean_elements (hd p = CHR ''/'') [] xs = xs"
    using clean_elements_fixed [of "hd p = CHR ''/''" xs "[]"] wf by simp
  show "Split CHR ''/'' (Join xs ''/'') = xs" if "xs \<noteq> []"
    using that elems by (intro Split_Join) auto
  show "Join xs ''/'' \<noteq> [] \<and> hd (Join xs ''/'') \<noteq> CHR ''/''" if ne: "xs \<noteq> []"
  proof -
    have "hd xs \<in> set xs" using ne by simp
    with elems have h: "hd xs \<noteq> []" "CHR ''/'' \<notin> set (hd xs)" by blast+
    have "hd (hd xs) \<in> set (hd xs)" using h(1) by (rule hd_in_set)
    with h(2) have "hd (hd xs) \<noteq> CHR ''/''" by metis
    with Join_hd [OF ne h(1), of "''/''"] show ?thesis by simp
  qed
qed

lemma Clean_idem: "Clean (Clean p) = Clean p"
proof (cases "p = []")
  case True
  then show ?thesis by (simp add: Clean_def)
next
  case False
  let ?xs = "clean_elements (hd p = CHR ''/'') [] (Split CHR ''/'' p)"
  note c = cleaned_elements [of p]
  show ?thesis
  proof (cases "?xs = []")
    case True
    with False show ?thesis by (cases "hd p = CHR ''/''") (simp_all add: Clean_def)
  next
    case ne: False
    show ?thesis
    proof (cases "hd p = CHR ''/''")
      case True
      with False ne c(1) c(2) [OF ne] show ?thesis by (simp add: Clean_def)
    next
      case False
      with \<open>p \<noteq> []\<close> ne c(1) c(2) [OF ne] c(3) [OF ne] show ?thesis by (simp add: Clean_def)
    qed
  qed
qed

lemma canonical_idem: "canonical (canonical p) = canonical p"
  by (simp add: canonical_def ToSlash_def Clean_idem Clean_root)

lemma Lookup_canonical: "Lookup fs (canonical p) = Lookup fs p"
  by (simp add: Lookup_def canonical_idem)

lemma Lookup_rooted:
  assumes "p \<noteq> []" "hd p = CHR ''/''"
  shows "Lookup fs p = descend (Root fs) (clean_elements True [] (Split CHR ''/'' p))"
proof -
  let ?xs = "clean_elements True [] (Split CHR ''/'' p)"
  note c = cleaned_elements [of p]
  have cl: "Clean p = CHR ''/'' # Join ?xs ''/''"
    using assms by (simp add: Clean_def)
  show ?thesis
  proof (cases "?xs = []")
    case True
    with cl show ?thesis by (simp add: Lookup_def canonical_def ToSlash_def)
  next
    case False
    with assms c(2) c(3) have "Split CHR ''/'' (Join ?xs ''/'') = ?xs" "Join ?xs ''/'' \<noteq> []"
      by simp_all
    with cl show ?thesis by (simp add: Lookup_def canonical_def ToSlash_def)
  qed
qed

text \<open>
  For a rooted path the atoms that \<open>Lookup\<close> descends along are all the atoms of the
  cleaned path: the path \<open>.\<close> resolves as \<open>/\<close>, the path \<open>/\<close> returns the root node
  without descending, and a rooted path returns the node reached from the root along its
  atoms if there is one, and NotFound exactly when one of its atoms is missing among the
  children of the node reached along the atoms before it. \<open>Lookup\<close> returns no other error.
\<close>

lemma Lookup_rooted_path:
  "Lookup fs ''.'' = Inr (Root fs) \<and> Lookup fs ''/'' = Inr (Root fs) \<and>
   Lookup fs p \<noteq> Inl ErrInvalid \<and>
   (p \<noteq> [] \<and> hd p = CHR ''/'' \<longrightarrow>
     (Lookup fs p = Inr m \<longleftrightarrow>
        reaches (Root fs) (clean_elements True [] (Split CHR ''/'' p)) m) \<and>
     (Lookup fs p = Inl ErrNotExist \<longleftrightarrow>
        (\<exists>pre a post k. clean_elements True [] (Split CHR ''/'' p) = pre @ a # post \<and>
           reaches (Root fs) pre k \<and> map_of (Children k) a = None)))"
proof -
  have "Lookup fs p = descend (Root fs) (clean_elements True [] (Split CHR ''/'' p))"
    if "p \<noteq> []" "hd p = CHR ''/''"
    using that by (rule Lookup_rooted)
  moreover have "Lookup fs ''.'' = Inr (Root fs)" "Lookup fs ''/'' = Inr (Root fs)"
    by (simp_all add: Lookup_def canonical_def ToSlash_def Clean_dot Clean_root)
  moreover have "Lookup fs p \<noteq> Inl ErrInvalid"
    by (simp add: Lookup_def descend_not_Invalid)
  ultimately show ?thesis
    by (simp add: descend_Inr descend_Inl)
qed

text \<open>
  C8 (code bug). The claim says that a path whose cleaned form contains an atom missing from
  the tree returns NotFound. \<open>Lookup\<close> takes \<open>strings.Split(pathname, "/")[1:]\<close>, which
  drops the empty string before the leading slash of a rooted path, and for a relative path
  drops its first atom. The cleaned form of the path \<open>x\<close> is \<open>x\<close>, and no node is named
  \<open>x\<close>, neither in the empty tree nor in the example tree; yet \<open>Lookup\<close> returns the root
  node for it, where \<open>LookupInode\<close> reports that the path does not exist and \<open>Lookup\<close>
  of \<open>/x\<close> returns NotFound. In the same way \<open>x/a\<close> resolves to the node of \<open>/a\<close>.
\<close>

theorem Lookup_relative_path_skips_first_atom:
  "Clean ''x'' = ''x'' \<and> map_of (Children (Root NewFilesystem)) ''x'' = None \<and>
   Lookup NewFilesystem ''x'' = Inr (Root NewFilesystem) \<and>
   LookupInode NewFilesystem ''x'' = None \<and>
   Lookup NewFilesystem ''/x'' = Inl ErrNotExist \<and>
   map_of (Children (Root example_fs)) ''x'' = None \<and>
   Lookup example_fs ''x'' = Inr (Root example_fs) \<and>
   LookupInode example_fs ''x'' = None \<and>
   Lookup example_fs ''/x'' = Inl ErrNotExist \<and>
   Lookup example_fs ''x/a'' = Inr (FilesystemNode ''1,3'' []) \<and>
   LookupInode example_fs ''x/a'' = None"
  unfolding example_fs_eq
  by (simp add: Lookup_def LookupInode_def canonical_def ToSlash_def Clean_def
      NewFilesystem_def)

subsection \<open>C9: LookupChildren\<close>

text \<open>
  C9. For a path that resolves to a node whose inode record is a directory,
  \<open>LookupChildren\<close> returns the names of the children of the node in increasing order of
  strings; for a path that resolves to a node whose inode record is not a directory it
  returns \<open>os.ErrInvalid\<close> (NotADirectory); for a path that does not resolve it returns
  \<open>os.ErrNotExist\<close> (NotFound).
\<close>

theorem LookupChildren_cases:
  "(Lookup fs p = Inr n \<and> IsDir (inode_of fs (Inode n)) \<longrightarrow>
      (\<exists>names. LookupChildren fs p = Inr names \<and> sorted names \<and>
         mset names = mset (map fst (Children n)))) \<and>
   (Lookup fs p = Inr n \<and> \<not> IsDir (inode_of fs (Inode n)) \<longrightarrow>
      LookupChildren fs p = Inl ErrInvalid) \<and>
   (Lookup fs p = Inl e \<longrightarrow> LookupChildren fs p = Inl ErrNotExist)"
  by (simp add: LookupChildren_def Lookup_canonical sort_Strings_def)

theorem LookupChildren_cases_witness:
  "Lookup example_fs ''/'' = Inr (Root example_fs) \<and>
   IsDir (inode_of example_fs (Inode (Root example_fs))) \<and>
   (\<exists>names. LookupChildren example_fs ''/'' = Inr names \<and> sorted names \<and>
      mset names = mset [''b'', ''a'']) \<and>
   Lookup example_fs ''/a'' = Inr (FilesystemNode ''1,3'' []) \<and>
   \<not> IsDir (inode_of example_fs (Inode (FilesystemNode ''1,3'' []))) \<and>
   LookupChildren example_fs ''/a'' = Inl ErrInvalid \<and>
   Lookup example_fs ''/zz/y'' = Inl ErrNotExist \<and>
   LookupChildren example_fs ''/zz/y'' = Inl ErrNotExist"
proof -
  have d: "IsDir (inode_of example_fs (Inode (Root example_fs)))"
    "\<not> IsDir (inode_of example_fs (Inode (FilesystemNode ''1,3'' [])))"
    "map fst (Children (Root example_fs)) = [''b'', ''a'']"
    unfolding example_fs_eq by (simp_all add: inode_of_def example_modes)
  show ?thesis
    using LookupChildren_cases [of example_fs "''/''" "Root example_fs"]
      LookupChildren_cases [of example_fs "''/a''" "FilesystemNode ''1,3'' []"]
      LookupChildren_cases [of example_fs "''/zz/y''" _ ErrNotExist]
      d example_lookups
    by simp
qed

subsection \<open>C10: what addPathname returns\<close>

text \<open>
  C10. Called with a pathname that is already interned, \<open>addPathname\<close> returns the id
  assigned earlier and changes nothing. Called with a pathname seen for the first time, it
  enters the pathname in \<open>Pathnames\<close> and in \<open>pathnamesInverse\<close> under the next sequential
  id (the counter \<open>pathnameID\<close>, which it then advances by one), leaves every other entry of
  both maps as it was, and returns 0, the zero value, not the id it has just assigned.
\<close>

theorem addPathname_result:
  "(map_of (Pathnames fs) p = Some i \<longrightarrow> addPathname fs p = (i, fs)) \<and>
   (map_of (Pathnames fs) p = None \<longrightarrow>
      fst (addPathname fs p) = 0 \<and>
      map_of (Pathnames (snd (addPathname fs p))) = (map_of (Pathnames fs))(p \<mapsto> pathnameID fs) \<and>
      pathnamesInverse (snd (addPathname fs p)) = (pathnamesInverse fs)(pathnameID fs \<mapsto> p) \<and>
      pathnameID (snd (addPathname fs p)) = pathnameID fs + 1 \<and>
      GetPathnameID (snd (addPathname fs p)) p = pathnameID fs \<and>
      GetPathname (snd (addPathname fs p)) (pathnameID fs) = p)"
  by (simp add: addPathname_def GetPathnameID_def GetPathname_def update_conv')

theorem addPathname_result_witness:
  "map_of (Pathnames (snd (addPathname (snd (addPathname NewFilesystem ''/a'')) ''/b''))) ''/b'' = Some 1 \<and>
   map_of (Pathnames (snd (addPathname NewFilesystem ''/a''))) ''/b'' = None \<and>
   fst (addPathname (snd (addPathname NewFilesystem ''/a'')) ''/b'') = 0 \<and>
   GetPathnameID (snd (addPathname (snd (addPathname NewFilesystem ''/a'')) ''/b'')) ''/b'' = 1 \<and>
   addPathname (snd (addPathname (snd (addPathname NewFilesystem ''/a'')) ''/b'')) ''/b''
     = (1, snd (addPathname (snd (addPathname NewFilesystem ''/a'')) ''/b''))"
proof -
  let ?fs1 = "snd (addPathname NewFilesystem ''/a'')"
  let ?fs2 = "snd (addPathname ?fs1 ''/b'')"
  have new: "map_of (Pathnames ?fs1) ''/b'' = None"
    by (simp add: addPathname_def NewFilesystem_def)
  have id1: "pathnameID ?fs1 = 1"
    by (simp add: addPathname_def NewFilesystem_def)
  have seen: "map_of (Pathnames ?fs2) ''/b'' = Some 1"
    using addPathname_result [of ?fs1 "''/b''" 0] new id1 by simp
  show ?thesis
    using addPathname_result [of ?fs1 "''/b''" 0] addPathname_result [of ?fs2 "''/b''" 1]
      new id1 seen by simp
qed

section \<open>Encryption: results\<close>

lemma toy_scrypt_ok: "scrypt_ok toy_scrypt"
  by (auto simp: scrypt_ok_def toy_scrypt_def)

lemma toy_base64_ok: "base64_ok toy_encode toy_decode"
proof -
  have "\<And>b :: byte. of_nat (of_char (char_of (unat b) :: char)) = b"
  proof -
    fix b :: byte
    have "unat b < 256" using unsigned_less [of b] by simp
    then show "of_nat (of_char (char_of (unat b) :: char)) = b" by simp
  qed
  then show ?thesis
    by (simp add: base64_ok_def toy_encode_def toy_decode_def comp_def map_idI)
qed

lemma toy_aead_ok: "aead_ok toy_aead"
  by (auto simp: aead_ok_def toy_aead_def Overhead_def)

subsection \<open>C1: EncryptStream and DecryptStream\<close>

lemma ReadFull_segment:
  "length seg = n \<Longrightarrow> 0 < n \<Longrightarrow> ReadFull n ((seg, None) # r) = ((seg, None), r)"
  unfolding ReadFull_def
  by (subst ReadFull_loop.simps, simp, subst ReadFull_loop.simps, simp)

lemma eof_alone_Cons:
  "eof_alone ((seg, e) # r) \<longleftrightarrow> (e = None \<or> seg = []) \<and> eof_alone r"
  by (simp add: eof_alone_def)

lemma loops_round_trip:
  "\<forall>buf. unseal (seal buf) = Inr buf \<Longrightarrow>
   \<forall>buf. length buf \<le> chunkSize \<longrightarrow> length (seal buf) \<le> chunkSize + Overhead \<Longrightarrow>
   eof_alone r \<Longrightarrow> ReadAll (decrypt_loop unseal (encrypt_loop seal r)) = ReadAll r"
proof (induction seal r rule: encrypt_loop.induct)
  case (1 seal r)
  from "1.prems"(1) have unseal: "\<And>buf. unseal (seal buf) = Inr buf" by simp
  from "1.prems"(2) have len:
    "\<And>buf. length buf \<le> chunkSize \<Longrightarrow> length (seal buf) \<le> chunkSize + Overhead"
    by simp
  note ea = "1.prems"(3)
  note IH = "1.IH" [OF _ _ _ "1.prems"(1,2)]
  show ?case
  proof (cases r)
    case Nil
    then show ?thesis
      by (simp add: encrypt_loop.simps [of seal "[]"] decrypt_loop.simps [of unseal "[]"])
  next
    case (Cons s rest)
    obtain seg e where s: "s = (seg, e)" by (cases s)
    show ?thesis
    proof (cases "length seg \<le> chunkSize")
      case short: True
      show ?thesis
      proof (cases e)
        case None
        have rd: "Read chunkSize r = ((seg, None), rest)"
          using Cons s short None by simp
        have enc: "encrypt_loop seal r = (seal seg, None) # encrypt_loop seal rest"
          using rd by (simp add: encrypt_loop.simps [of seal r])
        have "eof_alone rest" using ea Cons s by (simp add: eof_alone_Cons)
        with IH [OF rd [symmetric] refl refl] have ih:
          "ReadAll (decrypt_loop unseal (encrypt_loop seal rest)) = ReadAll rest"
          by simp
        have "length (seal seg) \<le> chunkSize + Overhead" using short by (rule len)
        then have "decrypt_loop unseal ((seal seg, None) # encrypt_loop seal rest) =
            (seg, None) # decrypt_loop unseal (encrypt_loop seal rest)"
          by (simp add: decrypt_loop.simps [of unseal "(seal seg, None) # encrypt_loop seal rest"]
              unseal)
        with enc ih Cons s None show ?thesis by simp
      next
        case (Some err)
        with ea Cons s have seg: "seg = []" by (simp add: eof_alone_Cons)
        have rd: "Read chunkSize r = (([], Some err), [([], Some err)])"
          using Cons s seg Some by simp
        show ?thesis
        proof (cases "err = EOF")
          case True
          with rd have "encrypt_loop seal r = []"
            by (simp add: encrypt_loop.simps [of seal r])
          with Cons s seg Some True show ?thesis
            by (simp add: decrypt_loop.simps [of unseal "[]"])
        next
          case False
          with rd have "encrypt_loop seal r = [([], Some err)]"
            by (simp add: encrypt_loop.simps [of seal r])
          with Cons s seg Some False show ?thesis
            by (simp add: decrypt_loop.simps [of unseal "[([], Some err)]"])
        qed
      qed
    next
      case long: False
      with ea Cons s have e: "e = None" by (auto simp: eof_alone_Cons)
      let ?r' = "(drop chunkSize seg, None) # rest"
      have rd: "Read chunkSize r = ((take chunkSize seg, None), ?r')"
        using Cons s long e by simp
      have enc: "encrypt_loop seal r = (seal (take chunkSize seg), None) # encrypt_loop seal ?r'"
        using rd by (simp add: encrypt_loop.simps [of seal r])
      have "eof_alone ?r'" using ea Cons s by (simp add: eof_alone_Cons)
      with IH [OF rd [symmetric] refl refl] have ih:
        "ReadAll (decrypt_loop unseal (encrypt_loop seal ?r')) = ReadAll ?r'"
        by simp
      have "length (seal (take chunkSize seg)) \<le> chunkSize + Overhead" by (rule len) simp
      then have "decrypt_loop unseal ((seal (take chunkSize seg), None) # encrypt_loop seal ?r') =
          (take chunkSize seg, None) # decrypt_loop unseal (encrypt_loop seal ?r')"
        by (simp add: decrypt_loop.simps
            [of unseal "(seal (take chunkSize seg), None) # encrypt_loop seal ?r'"] unseal)
      with enc ih Cons s e show ?thesis
        by (simp flip: append_assoc)
    qed
  qed
qed

lemma encrypt_loop_layout:
  "eof_alone r \<Longrightarrow>
   \<exists>chunks tail. encrypt_loop seal r = map (\<lambda>c. (seal c, None)) chunks @ tail \<and>
      (\<forall>c\<in>set chunks. length c \<le> chunkSize) \<and> concat chunks = fst (ReadAll r) \<and>
      (tail = [] \<or> (\<exists>err. tail = [([], Some err)]))"
proof (induction seal r rule: encrypt_loop.induct)
  case (1 seal r)
  note ea = "1.prems"
  show ?case
  proof (cases r)
    case Nil
    then have "encrypt_loop seal r = map (\<lambda>c. (seal c, None)) [] @ []"
      by (simp add: encrypt_loop.simps [of seal "[]"])
    with Nil show ?thesis
      by (intro exI [where x = "[]"]) simp
  next
    case (Cons s rest)
    obtain seg e where s: "s = (seg, e)" by (cases s)
    show ?thesis
    proof (cases "length seg \<le> chunkSize")
      case short: True
      show ?thesis
      proof (cases e)
        case None
        have rd: "Read chunkSize r = ((seg, None), rest)"
          using Cons s short None by simp
        have enc: "encrypt_loop seal r = (seal seg, None) # encrypt_loop seal rest"
          using rd by (simp add: encrypt_loop.simps [of seal r])
        have "eof_alone rest" using ea Cons s by (simp add: eof_alone_Cons)
        with "1.IH" [OF rd [symmetric] refl refl] obtain chunks tail where
          ih: "encrypt_loop seal rest = map (\<lambda>c. (seal c, None)) chunks @ tail"
            "\<forall>c\<in>set chunks. length c \<le> chunkSize" "concat chunks = fst (ReadAll rest)"
            "tail = [] \<or> (\<exists>err. tail = [([], Some err)])"
          by blast
        have "encrypt_loop seal r = map (\<lambda>c. (seal c, None)) (seg # chunks) @ tail"
          using enc ih(1) by simp
        moreover have "\<forall>c\<in>set (seg # chunks). length c \<le> chunkSize"
          using ih(2) short by simp
        moreover have "concat (seg # chunks) = fst (ReadAll r)"
          using ih(3) Cons s None by simp
        ultimately show ?thesis using ih(4)
          by (intro exI [where x = "seg # chunks"] exI [where x = tail]) simp
      next
        case (Some err)
        with ea Cons s have seg: "seg = []" by (simp add: eof_alone_Cons)
        have rd: "Read chunkSize r = (([], Some err), [([], Some err)])"
          using Cons s seg Some by simp
        have "encrypt_loop seal r =
            map (\<lambda>c. (seal c, None)) [] @ (if err \<noteq> EOF then [([], Some err)] else [])"
          using rd by (simp add: encrypt_loop.simps [of seal r])
        moreover have "concat [] = fst (ReadAll r)" using Cons s seg Some by simp
        ultimately show ?thesis
          by (intro exI [where x = "[]"]
              exI [where x = "if err \<noteq> EOF then [([], Some err)] else []"]) simp
      qed
    next
      case long: False
      with ea Cons s have e: "e = None" by (auto simp: eof_alone_Cons)
      let ?r' = "(drop chunkSize seg, None) # rest"
      have rd: "Read chunkSize r = ((take chunkSize seg, None), ?r')"
        using Cons s long e by simp
      have enc: "encrypt_loop seal r = (seal (take chunkSize seg), None) # encrypt_loop seal ?r'"
        using rd by (simp add: encrypt_loop.simps [of seal r])
      have "eof_alone ?r'" using ea Cons s by (simp add: eof_alone_Cons)
      with "1.IH" [OF rd [symmetric] refl refl] obtain chunks tail where
        ih: "encrypt_loop seal ?r' = map (\<lambda>c. (seal c, None)) chunks @ tail"
          "\<forall>c\<in>set chunks. length c \<le> chunkSize" "concat chunks = fst (ReadAll ?r')"
          "tail = [] \<or> (\<exists>err. tail = [([], Some err)])"
        by blast
      have "encrypt_loop seal r = map (\<lambda>c. (seal c, None)) (take chunkSize seg # chunks) @ tail"
        using enc ih(1) by simp
      moreover have "\<forall>c\<in>set (take chunkSize seg # chunks). length c \<le> chunkSize"
        using ih(2) by simp
      moreover have "concat (take chunkSize seg # chunks) = fst (ReadAll r)"
        using ih(3) Cons s e by (simp flip: append_assoc)
      ultimately show ?thesis using ih(4)
        by (intro exI [where x = "take chunkSize seg # chunks"] exI [where x = tail]) simp
    qed
  qed
qed

lemma EncryptStream_header:
  assumes "length key = 32" "56 \<le> length pool"
  shows "EncryptStream A pool key r =
     Inr ([(take 12 (drop 32 pool), None),
           (Seal A key (take 12 (drop 32 pool)) (take 32 pool), None),
           (take 12 (drop 44 pool), None)] @
          encrypt_loop (Seal A (take 32 pool) (take 12 (drop 44 pool))) r)"
  using assms by (auto simp: EncryptStream_def rand_Read_def NewGCM_def NonceSize_def)

lemma DecryptStream_header:
  assumes "aead_ok A" "length key = 32" "length subkey = 32" "length n1 = 12" "length n2 = 12"
  shows "DecryptStream A key ([(n1, None), (Seal A key n1 subkey, None), (n2, None)] @ body) =
     Inr (decrypt_loop (Open A subkey n2) body)"
proof -
  have s: "length (Seal A key n1 subkey) = Overhead + 32"
    "Open A key n1 (Seal A key n1 subkey) = Inr subkey"
    using assms(1,3) by (simp_all add: aead_ok_def)
  have r1: "ReadFull NonceSize ((n1, None) # (Seal A key n1 subkey, None) # (n2, None) # body) =
      ((n1, None), (Seal A key n1 subkey, None) # (n2, None) # body)"
    using assms(4) by (intro ReadFull_segment) (simp_all add: NonceSize_def)
  have r2: "ReadFull (Overhead + 32) ((Seal A key n1 subkey, None) # (n2, None) # body) =
      ((Seal A key n1 subkey, None), (n2, None) # body)"
    using s(1) by (intro ReadFull_segment) simp_all
  have r3: "ReadFull NonceSize ((n2, None) # body) = ((n2, None), body)"
    using assms(5) by (intro ReadFull_segment) (simp_all add: NonceSize_def)
  show ?thesis
    using assms(2,3) by (simp add: DecryptStream_def NewGCM_def r1 r2 r3 s(2))
qed

text \<open>
  Where the source reader returns its errors, \<open>io.EOF\<close> among them, with no bytes, the
  round trip holds, however the reader cuts the stream into reads: both functions succeed,
  reading the decrypted stream to its end gives the bytes (and the error, if any) of the
  source, and the encrypted stream is the nonce of the subkey, the sealed subkey, the nonce
  of the data and then one sealed chunk for each read, of at most 1024 bytes of plain text.
\<close>

lemma stream_round_trip:
  assumes "aead_ok A" "length key = 32" "56 \<le> length pool" "eof_alone r"
  shows "\<exists>enc dec chunks tail.
     EncryptStream A pool key r = Inr enc \<and> DecryptStream A key enc = Inr dec \<and>
     ReadAll dec = ReadAll r \<and>
     enc = [(take 12 (drop 32 pool), None),
            (Seal A key (take 12 (drop 32 pool)) (take 32 pool), None),
            (take 12 (drop 44 pool), None)] @
           map (\<lambda>c. (Seal A (take 32 pool) (take 12 (drop 44 pool)) c, None)) chunks @ tail \<and>
     (\<forall>c\<in>set chunks. length c \<le> chunkSize) \<and> concat chunks = fst (ReadAll r) \<and>
     (tail = [] \<or> (\<exists>err. tail = [([], Some err)]))"
proof -
  let ?subkey = "take 32 pool" and ?n1 = "take 12 (drop 32 pool)" and ?n2 = "take 12 (drop 44 pool)"
  let ?body = "encrypt_loop (Seal A ?subkey ?n2) r"
  let ?enc = "[(?n1, None), (Seal A key ?n1 ?subkey, None), (?n2, None)] @ ?body"
  have lens: "length ?subkey = 32" "length ?n1 = 12" "length ?n2 = 12"
    using assms(3) by simp_all
  have e: "EncryptStream A pool key r = Inr ?enc"
    using assms(2,3) by (rule EncryptStream_header)
  have d: "DecryptStream A key ?enc = Inr (decrypt_loop (Open A ?subkey ?n2) ?body)"
    using assms(1,2) lens by (rule DecryptStream_header)
  have rt: "ReadAll (decrypt_loop (Open A ?subkey ?n2) ?body) = ReadAll r"
    using assms(1,4) by (intro loops_round_trip) (simp_all add: aead_ok_def)
  from encrypt_loop_layout [OF assms(4), of "Seal A ?subkey ?n2"] obtain chunks tail where
    "?body = map (\<lambda>c. (Seal A ?subkey ?n2 c, None)) chunks @ tail"
    "\<forall>c\<in>set chunks. length c \<le> chunkSize" "concat chunks = fst (ReadAll r)"
    "tail = [] \<or> (\<exists>err. tail = [([], Some err)])"
    by blast
  with e d rt show ?thesis
    by (intro exI [where x = ?enc] exI [where x = "decrypt_loop (Open A ?subkey ?n2) ?body"]
        exI [where x = chunks] exI [where x = tail]) simp
qed

text \<open>
  C1 (the code departs from the claim). The claim says that for every byte stream \<open>s\<close> and
  every valid 32-byte key, reading all the bytes of
  \<open>DecryptStream(k, EncryptStream(k, s))\<close> yields \<open>s\<close>. An \<open>io.Reader\<close> may return its
  last bytes together with \<open>io.EOF\<close>. The loop of \<open>EncryptStream\<close> leaves at any error
  of \<open>Read\<close>, before it seals the bytes that came with it: for a source whose one read
  returns the stream \<open>s\<close> with \<open>io.EOF\<close>, both functions succeed, the encrypted stream
  holds no chunk, and the decrypted stream is empty, whatever \<open>s\<close> is.
\<close>

theorem EncryptStream_drops_bytes_read_with_EOF:
  assumes "aead_ok A" "length key = 32" "56 \<le> length pool" "length s \<le> chunkSize"
  shows "\<exists>enc dec.
     EncryptStream A pool key [(s, Some EOF)] = Inr enc \<and> DecryptStream A key enc = Inr dec \<and>
     ReadAll [(s, Some EOF)] = (s, None) \<and> ReadAll dec = ([], None)"
proof -
  let ?subkey = "take 32 pool" and ?n1 = "take 12 (drop 32 pool)" and ?n2 = "take 12 (drop 44 pool)"
  let ?enc = "[(?n1, None), (Seal A key ?n1 ?subkey, None), (?n2, None)] @ []"
  have lens: "length ?subkey = 32" "length ?n1 = 12" "length ?n2 = 12"
    using assms(3) by simp_all
  have body: "encrypt_loop (Seal A ?subkey ?n2) [(s, Some EOF)] = []"
    using assms(4) by (simp add: encrypt_loop.simps [of _ "[(s, Some EOF)]"])
  have e: "EncryptStream A pool key [(s, Some EOF)] = Inr ?enc"
    using EncryptStream_header [OF assms(2,3), of A "[(s, Some EOF)]"] body by simp
  have d: "DecryptStream A key ?enc = Inr (decrypt_loop (Open A ?subkey ?n2) [])"
    using assms(1,2) lens by (rule DecryptStream_header)
  have "decrypt_loop (Open A ?subkey ?n2) [] = []"
    by (simp add: decrypt_loop.simps [of _ "[]"])
  with e d show ?thesis by simp
qed

theorem EncryptStream_drops_bytes_read_with_EOF_witness:
  "aead_ok toy_aead \<and> length (replicate 32 (1 :: byte)) = 32 \<and>
   length [0x61, 0x62, 0x63 :: byte] \<le> chunkSize \<and>
   (\<exists>enc dec.
      EncryptStream toy_aead (replicate 56 2) (replicate 32 1) [([0x61, 0x62, 0x63], Some EOF)]
        = Inr enc \<and>
      DecryptStream toy_aead (replicate 32 1) enc = Inr dec \<and>
      ReadAll [([0x61, 0x62, 0x63], Some EOF)] = ([0x61, 0x62, 0x63], None) \<and>
      ReadAll dec = ([], None))"
  using EncryptStream_drops_bytes_read_with_EOF
    [OF toy_aead_ok, of "replicate 32 1" "replicate 56 2" "[0x61, 0x62, 0x63]"] toy_aead_ok
  by (simp add: chunkSize_def)

subsection \<open>C2: secrets from passphrases\<close>

text \<open>
  C2. Let \<open>scrypt.Key\<close> with the parameters of the code return a key of 32 bytes for every
  passphrase and salt, and let decoding undo encoding. Then for every passphrase \<open>p'\<close>,
  the empty one among them, \<open>BuildSecretFromPassphrase\<close> (given 16 random bytes) returns
  a secret that decodes to the salt followed by the key derived from \<open>p'\<close>; on that
  secret \<open>DeriveSecret\<close> succeeds for \<open>p'\<close> and returns that key; and for any
  passphrase \<open>p\<close> it returns the key exactly when the key derived from \<open>p\<close> and the
  stored salt is the stored key, and the error that the passphrase does not match otherwise.
\<close>

theorem DeriveSecret_iff:
  assumes "scrypt_ok K" "base64_ok enc dec" "saltSize \<le> length pool"
  shows "\<exists>secret dk. BuildSecretFromPassphrase K enc pool p' = Inr secret \<and>
     K p' (take saltSize pool) (2 ^ 15) 8 1 32 = Inr dk \<and> length dk = 32 \<and>
     dec secret = Inr (take saltSize pool @ dk) \<and>
     DeriveSecret K dec p' secret = Inr dk \<and>
     DeriveSecret K dec p secret =
       (if K p (take saltSize pool) (2 ^ 15) 8 1 32 = Inr dk then Inr dk
        else Inl (Failure ''passphrase does not match''))"
proof -
  from assms(1) obtain dk where
    dk: "K p' (take saltSize pool) (2 ^ 15) 8 1 32 = Inr dk" "length dk = 32"
    unfolding scrypt_ok_def by blast
  from assms(1) obtain dk' where dk': "K p (take saltSize pool) (2 ^ 15) 8 1 32 = Inr dk'"
    unfolding scrypt_ok_def by blast
  have b: "BuildSecretFromPassphrase K enc pool p' = Inr (enc (take saltSize pool @ dk))"
    using assms(3) dk by (simp add: BuildSecretFromPassphrase_def rand_Read_def)
  have d: "dec (enc (take saltSize pool @ dk)) = Inr (take saltSize pool @ dk)"
    using assms(2) by (simp add: base64_ok_def)
  have l: "length (take saltSize pool) = saltSize" using assms(3) by simp
  show ?thesis
    using b d dk dk' l by (auto simp: DeriveSecret_def)
qed

theorem DeriveSecret_iff_witness:
  "scrypt_ok toy_scrypt \<and> base64_ok toy_encode toy_decode \<and>
   saltSize \<le> length (replicate 16 (7 :: byte)) \<and>
   (\<exists>secret. BuildSecretFromPassphrase toy_scrypt toy_encode (replicate 16 7) [] = Inr secret \<and>
      DeriveSecret toy_scrypt toy_decode [] secret = Inr (replicate 32 16) \<and>
      DeriveSecret toy_scrypt toy_decode [1] secret = Inl (Failure ''passphrase does not match''))"
proof -
  have s: "saltSize \<le> length (replicate 16 (7 :: byte))" by (simp add: saltSize_def)
  from DeriveSecret_iff [OF toy_scrypt_ok toy_base64_ok s, of "[]" "[1]"]
  obtain secret dk where
    *: "BuildSecretFromPassphrase toy_scrypt toy_encode (replicate 16 7) [] = Inr secret"
      "toy_scrypt [] (take saltSize (replicate 16 7)) (2 ^ 15) 8 1 32 = Inr dk"
      "DeriveSecret toy_scrypt toy_decode [] secret = Inr dk"
      "DeriveSecret toy_scrypt toy_decode [1] secret =
         (if toy_scrypt [1] (take saltSize (replicate 16 7)) (2 ^ 15) 8 1 32 = Inr dk then Inr dk
          else Inl (Failure ''passphrase does not match''))"
    by blast
  from *(2) have dk: "dk = replicate 32 16" by (simp add: toy_scrypt_def saltSize_def)
  have "toy_scrypt [1] (take saltSize (replicate 16 (7 :: byte))) (2 ^ 15) 8 1 32 \<noteq> Inr dk"
    unfolding dk by (simp add: toy_scrypt_def saltSize_def)
  with * dk toy_scrypt_ok toy_base64_ok s show ?thesis by auto
qed

end
